theory Spec2Isabelle
  imports Complex_Main
begin

section \<open>Data model\<close>

text \<open>
  The helper module works on numpy arrays of floating-point numbers. A one-dimensional
  array is a list of numbers, a two-dimensional array a list of rows. Numbers are the
  reals: rounding is not modelled, and an operation whose floating-point result is not
  a number at all (a division by zero gives \<open>inf\<close> or \<open>nan\<close> in numpy) returns
  \<open>None\<close>. The random generator is not part of the module: every value it would
  have drawn is an argument of the function that draws it.
\<close>

type_synonym vector = "real list"
type_synonym matrix = "real list list"

datatype error = RuntimeError | LinAlgError

definition is_matrix :: "nat \<Rightarrow> nat \<Rightarrow> matrix \<Rightarrow> bool" where
  "is_matrix n m A \<longleftrightarrow> length A = n \<and> (\<forall>row \<in> set A. length row = m)"

section \<open>rchoice\<close>

text \<open>\<open>np.nonzero(weights)[0]\<close>: the indices of the entries that are not zero, ascending.\<close>

definition nonzero :: "vector \<Rightarrow> nat list" where
  "nonzero weights = filter (\<lambda>i. weights ! i \<noteq> 0) [0..<length weights]"

text \<open>
  The \<open>for\<close> loop of \<open>rchoice\<close> over the remaining indices, with the running sum \<open>s\<close>;
  falling out of the loop reaches the \<open>raise RuntimeError\<close>.
\<close>

fun rchoice_loop :: "vector \<Rightarrow> real \<Rightarrow> real \<Rightarrow> nat list \<Rightarrow> error + nat" where
  "rchoice_loop weights r s [] = Inl RuntimeError"
| "rchoice_loop weights r s (i # rest) =
     (let s' = s + weights ! i
      in if r \<le> s' then Inr i else rchoice_loop weights r s' rest)"

text \<open>\<open>rchoice(weights)\<close>, where \<open>r\<close> is the value of \<open>rand.random()\<close>.\<close>

definition rchoice :: "vector \<Rightarrow> real \<Rightarrow> error + nat" where
  "rchoice weights r = rchoice_loop weights r 0 (nonzero weights)"

text \<open>The running sum after the first \<open>k\<close> indices of nonzero weight.\<close>

definition cumulative :: "vector \<Rightarrow> nat \<Rightarrow> real" where
  "cumulative weights k = sum_list (map (\<lambda>i. weights ! i) (take k (nonzero weights)))"

section \<open>rowStochastic\<close>

text \<open>
  \<open>A / A.sum(axis=1, keepdims=True)\<close>: every entry divided by the sum of its row.
  When a row sums to zero numpy divides by zero and the row holds \<open>inf\<close> or \<open>nan\<close>;
  the model returns \<open>None\<close> then.
\<close>

definition rowStochastic :: "matrix \<Rightarrow> matrix option" where
  "rowStochastic A =
     (if \<exists>row \<in> set A. sum_list row = 0 then None
      else Some (map (\<lambda>row. map (\<lambda>x. x / sum_list row) row) A))"

section \<open>meanDegree\<close>

text \<open>
  \<open>B[B > 0] = 1\<close> on a copy of \<open>A\<close>, the row sums of \<open>B\<close>, and their mean. The mean of
  an empty array is \<open>nan\<close> in numpy: \<open>None\<close>.
\<close>

definition meanDegree :: "matrix \<Rightarrow> real option" where
  "meanDegree A =
     (let B = map (map (\<lambda>x. if x > 0 then 1 else x)) A;
          degrees = map sum_list B
      in if degrees = [] then None
         else Some (sum_list degrees / real (length degrees)))"

section \<open>Random draws\<close>

text \<open>
  \<open>rand.random()\<close> is a generator with hidden state. The model takes the sequence of
  values the generator returns, \<open>draws 0\<close>, \<open>draws 1\<close>, ..., and threads the number of
  values already taken. \<open>rand.permutation(N)\<close> is the argument \<open>nodes\<close>.
\<close>

type_synonym rng = "nat \<Rightarrow> real"

definition is_permutation :: "nat \<Rightarrow> nat list \<Rightarrow> bool" where
  "is_permutation N nodes \<longleftrightarrow> distinct nodes \<and> set nodes = {0..<N}"

section \<open>randomSpanningTree\<close>

definition zeros :: "nat \<Rightarrow> nat \<Rightarrow> matrix" where
  "zeros n m = replicate n (replicate m 0)"

text \<open>
  \<open>A[i, j] = w\<close>. The indices the module writes at come from \<open>range(N)\<close> or from a
  permutation of it, so they are inside the array.
\<close>

definition set_entry :: "matrix \<Rightarrow> nat \<Rightarrow> nat \<Rightarrow> real \<Rightarrow> matrix" where
  "set_entry A i j w = A[i := (A ! i)[j := w]]"

text \<open>One iteration of the loop over \<open>range(1, N)\<close>; the state is the array and the count of draws.\<close>

definition tree_step :: "bool \<Rightarrow> nat list \<Rightarrow> rng \<Rightarrow> matrix \<times> nat \<Rightarrow> nat \<Rightarrow> matrix \<times> nat" where
  "tree_step rand_weights nodes draws st i =
     (case st of (A, c) \<Rightarrow>
        let (w, c') = (if rand_weights then (draws c, c + 1) else (1, c));
            A1 = set_entry A (nodes ! (i - 1)) (nodes ! i) w;
            A2 = set_entry A1 (nodes ! i) (nodes ! (i - 1)) w
        in (A2, c'))"

definition randomSpanningTree :: "nat \<Rightarrow> bool \<Rightarrow> nat list \<Rightarrow> rng \<Rightarrow> nat \<Rightarrow> matrix \<times> nat" where
  "randomSpanningTree N rand_weights nodes draws c =
     foldl (tree_step rand_weights nodes draws) (zeros N N, c) [1..<N]"

section \<open>gnp\<close>

text \<open>The body of the two nested loops, at the pair \<open>(i, j)\<close>.\<close>

definition gnp_step :: "real \<Rightarrow> bool \<Rightarrow> rng \<Rightarrow> nat \<Rightarrow> matrix \<times> nat \<Rightarrow> nat \<Rightarrow> matrix \<times> nat" where
  "gnp_step p rand_weights draws i st j =
     (case st of (A, c) \<Rightarrow>
        let r = draws c; c1 = c + 1
        in if r < p then
             let (w, c2) = (if rand_weights then (draws c1, c1 + 1) else (1, c1));
                 A1 = set_entry A i j w;
                 A2 = set_entry A1 j i w
             in (A2, c2)
           else (A, c1))"

definition gnp_loop :: "nat \<Rightarrow> real \<Rightarrow> bool \<Rightarrow> rng \<Rightarrow> matrix \<times> nat \<Rightarrow> matrix \<times> nat" where
  "gnp_loop N p rand_weights draws st =
     foldl (\<lambda>st i. foldl (gnp_step p rand_weights draws i) st [0..<N]) st [0..<N]"

text \<open>
  \<open>gnp(N, p, rand_weights)\<close>. The tree is built by \<open>randomSpanningTree(N)\<close>, that is
  with \<open>rand_weights = False\<close>. The report printed when \<open>verbose\<close> is set does not change
  the result and is left out.
\<close>

definition gnp :: "nat \<Rightarrow> real \<Rightarrow> bool \<Rightarrow> nat list \<Rightarrow> rng \<Rightarrow> matrix option" where
  "gnp N p rand_weights nodes draws =
     (let (A, c) = gnp_loop N p rand_weights draws (randomSpanningTree N False nodes draws 0)
      in if rand_weights then rowStochastic A else Some A)"

section \<open>expectedEquilibrium\<close>

text \<open>\<open>np.diag\<close> of a square array (its diagonal) and of a vector (the diagonal matrix).\<close>

definition diag_of :: "matrix \<Rightarrow> vector" where
  "diag_of A = map (\<lambda>i. A ! i ! i) [0..<length A]"

definition diag_matrix :: "vector \<Rightarrow> matrix" where
  "diag_matrix v = map (\<lambda>i. map (\<lambda>j. if i = j then v ! i else 0) [0..<length v]) [0..<length v]"

definition eye :: "nat \<Rightarrow> matrix" where
  "eye N = map (\<lambda>i. map (\<lambda>j. if i = j then 1 else 0) [0..<N]) [0..<N]"

text \<open>\<open>X - Y\<close> on arrays of one shape.\<close>

definition mat_sub :: "matrix \<Rightarrow> matrix \<Rightarrow> matrix" where
  "mat_sub X Y = map2 (map2 (-)) X Y"

text \<open>\<open>np.dot\<close> of two matrices, and of a matrix and a vector.\<close>

definition cols :: "matrix \<Rightarrow> nat" where
  "cols Y = (case Y of [] \<Rightarrow> 0 | row # _ \<Rightarrow> length row)"

definition dot_mat :: "matrix \<Rightarrow> matrix \<Rightarrow> matrix" where
  "dot_mat X Y =
     map (\<lambda>row. map (\<lambda>j. \<Sum>k\<leftarrow>[0..<length Y]. row ! k * Y ! k ! j) [0..<cols Y]) X"

definition dot_vec :: "matrix \<Rightarrow> vector \<Rightarrow> vector" where
  "dot_vec X v = map (\<lambda>row. \<Sum>k\<leftarrow>[0..<length v]. row ! k * v ! k) X"

text \<open>
  \<open>numpy.linalg.inv\<close> is a library routine, not code of the module: it is the parameter
  \<open>linalg_inv\<close>, which returns the inverse or raises \<open>LinAlgError\<close>.
\<close>

definition expectedEquilibrium :: "(matrix \<Rightarrow> error + matrix) \<Rightarrow> matrix \<Rightarrow> vector \<Rightarrow> error + vector" where
  "expectedEquilibrium linalg_inv A s =
     (let N = length A;
          B = diag_matrix (diag_of A)
      in case linalg_inv (mat_sub (eye N) (mat_sub A B)) of
           Inl e \<Rightarrow> Inl e
         | Inr X \<Rightarrow> Inr (dot_vec (dot_mat X B) s))"

section \<open>Graphs read off an adjacency matrix\<close>

text \<open>
  An undirected edge is a pair \<open>i \<le> j\<close> of nodes whose entry is positive; a node's
  neighbours are the columns of its row with a positive entry.
\<close>

definition undirected_edges :: "matrix \<Rightarrow> (nat \<times> nat) set" where
  "undirected_edges A = {(i, j). i \<le> j \<and> j < length A \<and> 0 < A ! i ! j}"

definition edge_count :: "matrix \<Rightarrow> nat" where
  "edge_count A = card (undirected_edges A)"

definition neighbours :: "matrix \<Rightarrow> nat \<Rightarrow> nat set" where
  "neighbours A i = {j. j < length A \<and> 0 < A ! i ! j}"

definition is_binary :: "matrix \<Rightarrow> bool" where
  "is_binary A \<longleftrightarrow> (\<forall>row \<in> set A. \<forall>x \<in> set row. x = 0 \<or> x = 1)"

definition is_symmetric :: "matrix \<Rightarrow> bool" where
  "is_symmetric A \<longleftrightarrow> (\<forall>i < length A. \<forall>j < length A. A ! i ! j = A ! j ! i)"

definition zero_diagonal :: "matrix \<Rightarrow> bool" where
  "zero_diagonal A \<longleftrightarrow> (\<forall>i < length A. A ! i ! i = 0)"

section \<open>The Friedkin-Johnsen equation\<close>

text \<open>
  The notions the equilibrium is stated with: the sum of two vectors, what it means for
  the matrix \<open>linalg_inv\<close> returns to be the inverse, and a matrix without influence
  between different nodes.
\<close>

definition vec_add :: "vector \<Rightarrow> vector \<Rightarrow> vector" where
  "vec_add u v = map2 (+) u v"

definition is_inverse :: "matrix \<Rightarrow> matrix \<Rightarrow> bool" where
  "is_inverse M X \<longleftrightarrow>
     is_matrix (length M) (length M) X \<and> dot_mat M X = eye (length M) \<and> dot_mat X M = eye (length M)"

text \<open>
  The diagonal matrix \<open>B\<close> of the diagonal of \<open>A\<close> (the stubbornness of the nodes), and
  the influence matrix \<open>A - B\<close>.
\<close>

definition stubbornness :: "matrix \<Rightarrow> matrix" where
  "stubbornness A = diag_matrix (diag_of A)"

definition influence :: "matrix \<Rightarrow> matrix" where
  "influence A = mat_sub A (stubbornness A)"

definition off_diagonal_zero :: "matrix \<Rightarrow> bool" where
  "off_diagonal_zero A \<longleftrightarrow> (\<forall>i < length A. \<forall>j < length A. i \<noteq> j \<longrightarrow> A ! i ! j = 0)"

section \<open>Spanning trees\<close>

text \<open>
  The graph of a matrix, for the tree builder: an edge is a nonzero entry, and the graph
  is connected when every node reaches every node along edges.
\<close>

definition nonzero_edges :: "matrix \<Rightarrow> (nat \<times> nat) set" where
  "nonzero_edges A = {(i, j). i \<le> j \<and> j < length A \<and> A ! i ! j \<noteq> 0}"

definition adjacent :: "matrix \<Rightarrow> (nat \<times> nat) set" where
  "adjacent A = {(i, j). i < length A \<and> j < length A \<and> A ! i ! j \<noteq> 0}"

definition connected :: "matrix \<Rightarrow> bool" where
  "connected A \<longleftrightarrow> (\<forall>i < length A. \<forall>j < length A. (i, j) \<in> (adjacent A)\<^sup>*)"

text \<open>The nodes \<open>i\<close> and \<open>j\<close> are joined by the \<open>k\<close>-th step along the permutation.\<close>

definition joined_at :: "nat list \<Rightarrow> nat \<Rightarrow> nat \<Rightarrow> nat \<Rightarrow> bool" where
  "joined_at nodes k i j \<longleftrightarrow>
     (i = nodes ! (k - 1) \<and> j = nodes ! k) \<or> (i = nodes ! k \<and> j = nodes ! (k - 1))"

section \<open>The sampling loops of gnp\<close>

text \<open>
  The state of the two loops of \<open>gnp\<close> when they reach the pair \<open>(i, j)\<close>: the rows
  before \<open>i\<close> are done, and the columns before \<open>j\<close> of row \<open>i\<close>.
\<close>

definition reach_pair :: "nat \<Rightarrow> real \<Rightarrow> bool \<Rightarrow> rng \<Rightarrow> matrix \<times> nat \<Rightarrow> nat \<Rightarrow> nat \<Rightarrow> matrix \<times> nat" where
  "reach_pair N p rand_weights draws st i j =
     foldl (gnp_step p rand_weights draws i)
       (foldl (\<lambda>st i'. foldl (gnp_step p rand_weights draws i') st [0..<N]) st [0..<i])
       [0..<j]"

text \<open>
  The matrix the two loops leave, before \<open>if rand_weights: A = rowStochastic(A)\<close>.
\<close>

definition gnp_sampled :: "nat \<Rightarrow> real \<Rightarrow> bool \<Rightarrow> nat list \<Rightarrow> rng \<Rightarrow> matrix" where
  "gnp_sampled N p rand_weights nodes draws =
     fst (gnp_loop N p rand_weights draws (randomSpanningTree N False nodes draws 0))"

section \<open>rchoice: results\<close>

lemma rchoice_loop_result:
  "rchoice_loop w r s ixs = Inl RuntimeError \<or> (\<exists>i \<in> set ixs. rchoice_loop w r s ixs = Inr i)"
  by (induction ixs arbitrary: s) (auto simp: Let_def)

lemma set_nonzero: "set (nonzero w) = {i. i < length w \<and> w ! i \<noteq> 0}"
  by (auto simp: nonzero_def)

lemma rchoice_loop_never_reached:
  "(\<forall>k \<in> {1..length ixs}. s + sum_list (map (\<lambda>i. w ! i) (take k ixs)) < r)
   \<Longrightarrow> rchoice_loop w r s ixs = Inl RuntimeError"
proof (induction ixs arbitrary: s)
  case Nil
  then show ?case by simp
next
  case (Cons i rest)
  have first: "s + w ! i < r"
    using Cons.prems [rule_format, of 1] by simp
  have "\<forall>k \<in> {1..length rest}. (s + w ! i) + sum_list (map (\<lambda>i. w ! i) (take k rest)) < r"
  proof
    fix k assume "k \<in> {1..length rest}"
    then have "Suc k \<in> {1..length (i # rest)}" by simp
    from Cons.prems [rule_format, OF this] show
      "(s + w ! i) + sum_list (map (\<lambda>i. w ! i) (take k rest)) < r"
      by (simp add: add.assoc)
  qed
  from Cons.IH [OF this] first show ?case by (simp add: Let_def)
qed

text \<open>
  C6. The sampler returns either \<open>RuntimeError\<close> or an index inside the vector. When the
  running sum over the indices of nonzero weight stays below \<open>r\<close> at every step it
  raises, and a vector of zeros raises for every \<open>r\<close>.
\<close>

theorem rchoice_fails_or_in_range:
  "(rchoice w r = Inl RuntimeError \<or> (\<exists>i. rchoice w r = Inr i \<and> i < length w))
   \<and> ((\<forall>k \<in> {1..length (nonzero w)}. cumulative w k < r) \<longrightarrow> rchoice w r = Inl RuntimeError)
   \<and> ((\<forall>x \<in> set w. x = 0) \<longrightarrow> rchoice w r = Inl RuntimeError)"
proof (intro conjI impI)
  show "rchoice w r = Inl RuntimeError \<or> (\<exists>i. rchoice w r = Inr i \<and> i < length w)"
    using rchoice_loop_result [of w r 0 "nonzero w"] set_nonzero [of w]
    unfolding rchoice_def by auto
next
  assume "\<forall>k \<in> {1..length (nonzero w)}. cumulative w k < r"
  then show "rchoice w r = Inl RuntimeError"
    unfolding rchoice_def cumulative_def
    by (intro rchoice_loop_never_reached) simp
next
  assume "\<forall>x \<in> set w. x = 0"
  then have "nonzero w = []"
    by (auto simp: nonzero_def filter_empty_conv)
  then show "rchoice w r = Inl RuntimeError"
    by (simp add: rchoice_def)
qed

theorem rchoice_fails_or_in_range_witness:
  "rchoice [1/5, 0, 3/10] (9/10) = Inl RuntimeError
   \<and> rchoice [0, 0] (1/2) = Inl RuntimeError
   \<and> (\<exists>i. rchoice [1/5, 0, 3/10] (2/5) = Inr i \<and> i < 3)"
proof -
  have nz: "nonzero [1/5, 0, 3/10] = [0, 2]"
    by (simp add: nonzero_def upt_rec)
  have h1: "\<forall>k \<in> {1..length (nonzero [1/5, 0, 3/10])}. cumulative [1/5, 0, 3/10] k < 9/10"
  proof
    fix k assume "k \<in> {1..length (nonzero [1/5, 0, 3/10])}"
    then have "k = 1 \<or> k = 2" by (auto simp: nz)
    then show "cumulative [1/5, 0, 3/10] k < 9/10"
      by (auto simp: cumulative_def nz)
  qed
  have h2: "\<forall>x \<in> set [0, 0 :: real]. x = 0" by simp
  have r3: "rchoice [1/5, 0, 3/10] (2/5) \<noteq> Inl RuntimeError"
    by (simp add: rchoice_def nz)
  from rchoice_fails_or_in_range [of "[1/5, 0, 3/10]" "9/10"] h1
  have a: "rchoice [1/5, 0, 3/10] (9/10) = Inl RuntimeError" by blast
  from rchoice_fails_or_in_range [of "[0, 0]" "1/2"] h2
  have b: "rchoice [0, 0] (1/2) = Inl RuntimeError" by blast
  from rchoice_fails_or_in_range [of "[1/5, 0, 3/10]" "2/5"] r3
  have c: "\<exists>i. rchoice [1/5, 0, 3/10] (2/5) = Inr i \<and> i < 3" by auto
  from a b c show ?thesis by (intro conjI)
qed

text \<open>
  C7. An index that the sampler returns has a weight different from zero.
\<close>

theorem rchoice_returns_nonzero_weight:
  "rchoice w r = Inr i \<Longrightarrow> w ! i \<noteq> 0"
  using rchoice_loop_result [of w r 0 "nonzero w"] set_nonzero [of w]
  unfolding rchoice_def by auto

theorem rchoice_returns_nonzero_weight_witness:
  "rchoice [1/5, 0, 3/10] (2/5) = Inr 2 \<and> [1/5, 0, 3/10 :: real] ! 2 \<noteq> 0"
proof -
  have r3: "rchoice [1/5, 0, 3/10] (2/5) = Inr 2"
    by (simp add: rchoice_def nonzero_def upt_rec)
  from rchoice_returns_nonzero_weight [OF r3] r3 show ?thesis by simp
qed

section \<open>rowStochastic: results\<close>

lemma rowStochastic_Some:
  "\<forall>row \<in> set A. sum_list row \<noteq> 0 \<Longrightarrow>
   rowStochastic A = Some (map (\<lambda>row. map (\<lambda>x. x / sum_list row) row) A)"
  by (simp add: rowStochastic_def)

lemma sum_list_divide: "sum_list (map (\<lambda>x. x / c) row) = sum_list row / (c::real)"
  by (induction row) (simp_all add: add_divide_distrib)

lemma is_matrix_nth: "is_matrix n m A \<Longrightarrow> i < n \<Longrightarrow> A ! i \<in> set A \<and> length (A ! i) = m"
  by (auto simp: is_matrix_def)

text \<open>
  C5. For a matrix in which no row sums to zero, \<open>rowStochastic\<close> returns a matrix of
  the same shape whose entry \<open>(i, j)\<close> is \<open>A[i, j]\<close> divided by the sum of row \<open>i\<close>,
  and every row of the result sums to 1.
\<close>

theorem rowStochastic_rows_sum_to_one:
  assumes "is_matrix n m A" and "\<forall>row \<in> set A. sum_list row \<noteq> 0"
  shows "\<exists>R. rowStochastic A = Some R \<and> is_matrix n m R
           \<and> (\<forall>i < n. \<forall>j < m. R ! i ! j = A ! i ! j / sum_list (A ! i))
           \<and> (\<forall>i < n. sum_list (R ! i) = 1)"
proof -
  let ?R = "map (\<lambda>row. map (\<lambda>x. x / sum_list row) row) A"
  have len: "length A = n" using assms(1) by (simp add: is_matrix_def)
  have 1: "rowStochastic A = Some ?R" using assms(2) by (rule rowStochastic_Some)
  have 2: "is_matrix n m ?R" using assms(1) by (auto simp: is_matrix_def)
  have 3: "?R ! i ! j = A ! i ! j / sum_list (A ! i)" if "i < n" "j < m" for i j
    using that is_matrix_nth [OF assms(1) that(1)] len by simp
  have 4: "sum_list (?R ! i) = 1" if "i < n" for i
  proof -
    have "sum_list (A ! i) \<noteq> 0"
      using assms(2) is_matrix_nth [OF assms(1) that] by blast
    then show ?thesis using that len by (simp add: sum_list_divide)
  qed
  from 1 2 3 4 show ?thesis by blast
qed

theorem rowStochastic_rows_sum_to_one_witness:
  "\<exists>R. rowStochastic [[1, 3], [2, 2]] = Some R
        \<and> R ! 0 ! 1 = 3 / 4 \<and> R ! 1 ! 0 = 1 / 2
        \<and> sum_list (R ! 0) = 1 \<and> sum_list (R ! 1) = 1"
proof -
  have a: "is_matrix 2 2 [[1, 3], [2, 2]]" by (simp add: is_matrix_def)
  have b: "\<forall>row \<in> set [[1, 3], [2, 2 :: real]]. sum_list row \<noteq> 0" by simp
  from rowStochastic_rows_sum_to_one [OF a b] obtain R where
    R: "rowStochastic [[1, 3], [2, 2]] = Some R"
    and entries: "\<forall>i < 2. \<forall>j < 2. R ! i ! j = [[1, 3], [2, 2]] ! i ! j / sum_list ([[1, 3], [2, 2]] ! i)"
    and sums: "\<forall>i < 2. sum_list (R ! i) = 1"
    by blast
  have e01: "R ! 0 ! 1 = 3 / 4" using entries [rule_format, of 0 1] by simp
  have e10: "R ! 1 ! 0 = 1 / 2" using entries [rule_format, of 1 0] by simp
  have s0: "sum_list (R ! 0) = 1" using sums [rule_format, of 0] by simp
  have s1: "sum_list (R ! 1) = 1" using sums [rule_format, of 1] by simp
  from R e01 e10 s0 s1 show ?thesis by (intro exI [of _ R] conjI)
qed

text \<open>
  C8, as amended. For a matrix in which no row sums to zero, normalising the result of
  \<open>rowStochastic\<close> once more gives the same matrix.
\<close>

theorem rowStochastic_idempotent:
  assumes "is_matrix n m A" and "\<forall>row \<in> set A. sum_list row \<noteq> 0"
  shows "\<exists>R. rowStochastic A = Some R \<and> rowStochastic R = Some R"
proof -
  let ?R = "map (\<lambda>row. map (\<lambda>x. x / sum_list row) row) A"
  have 1: "rowStochastic A = Some ?R" using assms(2) by (rule rowStochastic_Some)
  have sums: "sum_list row = 1" if "row \<in> set ?R" for row
  proof -
    from that obtain r where r: "r \<in> set A" "row = map (\<lambda>x. x / sum_list r) r" by auto
    with assms(2) have "sum_list r \<noteq> 0" by blast
    with r(2) show ?thesis by (simp add: sum_list_divide)
  qed
  have "\<forall>row \<in> set ?R. sum_list row \<noteq> 0"
  proof
    fix row assume "row \<in> set ?R"
    then have "sum_list row = 1" by (rule sums)
    then show "sum_list row \<noteq> 0" by simp
  qed
  then have "rowStochastic ?R = Some (map (\<lambda>row. map (\<lambda>x. x / sum_list row) row) ?R)"
    by (rule rowStochastic_Some)
  also have "map (\<lambda>row. map (\<lambda>x. x / sum_list row) row) ?R = ?R"
  proof (rule map_idI)
    fix row assume "row \<in> set ?R"
    then have "sum_list row = 1" by (rule sums)
    then show "map (\<lambda>x. x / sum_list row) row = row" by simp
  qed
  finally have 2: "rowStochastic ?R = Some ?R" .
  from 1 2 show ?thesis by (intro exI [of _ ?R] conjI)
qed

theorem rowStochastic_idempotent_witness:
  "\<exists>R. rowStochastic [[1, 3], [2, 2]] = Some R \<and> rowStochastic R = Some R"
proof -
  have a: "is_matrix 2 2 [[1, 3], [2, 2]]" by (simp add: is_matrix_def)
  have b: "\<forall>row \<in> set [[1, 3], [2, 2 :: real]]. sum_list row \<noteq> 0" by simp
  show ?thesis by (rule rowStochastic_idempotent [OF a b])
qed

text \<open>
  C8 as stated asks only that no row is all zero. The first row of the matrix below is
  not all zero and sums to zero: the division by zero leaves no matrix of numbers.
\<close>

theorem rowStochastic_not_all_zero_counterexample:
  "is_matrix 2 2 [[1, -1], [1, 1]]
   \<and> \<not> (\<exists>row \<in> set [[1, -1], [1, 1 :: real]]. \<forall>x \<in> set row. x = 0)
   \<and> \<not> (\<exists>R. rowStochastic [[1, -1], [1, 1]] = Some R \<and> rowStochastic R = Some R)"
  by (simp add: is_matrix_def rowStochastic_def)

text \<open>
  C10. For a matrix with nonnegative entries and positive row sums, an entry of
  \<open>rowStochastic A\<close> is positive exactly when the entry of \<open>A\<close> is, and zero exactly
  when the entry of \<open>A\<close> is.
\<close>

theorem rowStochastic_preserves_pattern:
  assumes "is_matrix n m A"
    and "\<forall>row \<in> set A. (\<forall>x \<in> set row. 0 \<le> x) \<and> 0 < sum_list row"
  shows "\<exists>R. rowStochastic A = Some R \<and> is_matrix n m R
           \<and> (\<forall>i < n. \<forall>j < m. (0 < R ! i ! j \<longleftrightarrow> 0 < A ! i ! j) \<and> (R ! i ! j = 0 \<longleftrightarrow> A ! i ! j = 0))"
proof -
  let ?R = "map (\<lambda>row. map (\<lambda>x. x / sum_list row) row) A"
  have len: "length A = n" using assms(1) by (simp add: is_matrix_def)
  have nz: "\<forall>row \<in> set A. sum_list row \<noteq> 0" using assms(2) by fastforce
  have 1: "rowStochastic A = Some ?R" using nz by (rule rowStochastic_Some)
  have 2: "is_matrix n m ?R" using assms(1) by (auto simp: is_matrix_def)
  have 3: "(0 < ?R ! i ! j \<longleftrightarrow> 0 < A ! i ! j) \<and> (?R ! i ! j = 0 \<longleftrightarrow> A ! i ! j = 0)"
    if "i < n" "j < m" for i j
  proof -
    have pos: "0 < sum_list (A ! i)"
      using assms(2) is_matrix_nth [OF assms(1) that(1)] by blast
    have "?R ! i ! j = A ! i ! j / sum_list (A ! i)"
      using that is_matrix_nth [OF assms(1) that(1)] len by simp
    with pos show ?thesis by (simp add: zero_less_divide_iff)
  qed
  from 1 2 3 show ?thesis by blast
qed

theorem rowStochastic_preserves_pattern_witness:
  "\<exists>R. rowStochastic [[0, 3], [2, 2]] = Some R
        \<and> R ! 0 ! 0 = 0 \<and> 0 < R ! 0 ! 1 \<and> 0 < R ! 1 ! 0 \<and> 0 < R ! 1 ! 1"
proof -
  have a: "is_matrix 2 2 [[0, 3], [2, 2]]" by (simp add: is_matrix_def)
  have b: "\<forall>row \<in> set [[0, 3], [2, 2 :: real]]. (\<forall>x \<in> set row. 0 \<le> x) \<and> 0 < sum_list row" by simp
  from rowStochastic_preserves_pattern [OF a b] obtain R where
    R: "rowStochastic [[0, 3], [2, 2]] = Some R"
    and pat: "\<forall>i < 2. \<forall>j < 2. (0 < R ! i ! j \<longleftrightarrow> 0 < [[0, 3], [2, 2 :: real]] ! i ! j)
                 \<and> (R ! i ! j = 0 \<longleftrightarrow> [[0, 3], [2, 2 :: real]] ! i ! j = 0)"
    by blast
  have e00: "R ! 0 ! 0 = 0" using pat [rule_format, of 0 0] by simp
  have e01: "0 < R ! 0 ! 1" using pat [rule_format, of 0 1] by simp
  have e10: "0 < R ! 1 ! 0" using pat [rule_format, of 1 0] by simp
  have e11: "0 < R ! 1 ! 1" using pat [rule_format, of 1 1] by simp
  from R e00 e01 e10 e11 show ?thesis by (intro exI [of _ R] conjI)
qed

section \<open>meanDegree: results\<close>

lemma count_positive:
  fixes f :: "nat \<Rightarrow> real"
  assumes "\<forall>j < n. f j = 0 \<or> f j = 1"
  shows "(\<Sum>j < n. f j) = real (card {j. j < n \<and> 0 < f j})"
proof -
  have "{j. j < n \<and> 0 < f j} = {j \<in> {..<n}. 0 < f j}" by auto
  then have "real (card {j. j < n \<and> 0 < f j}) = (\<Sum>j \<in> {j \<in> {..<n}. 0 < f j}. 1)"
    by simp
  also have "\<dots> = (\<Sum>j < n. if 0 < f j then 1 else 0)"
    by (rule sum.inter_filter) simp
  also have "\<dots> = (\<Sum>j < n. f j)"
    by (rule sum.cong) (use assms in auto)
  finally show ?thesis by simp
qed

lemma sum_list_nth_lessThan: "sum_list (xs :: real list) = (\<Sum>j < length xs. xs ! j)"
  by (simp add: sum_list_sum_nth atLeast0LessThan)

lemma symmetric_double_sum:
  fixes f :: "nat \<Rightarrow> nat \<Rightarrow> real"
  assumes "n \<le> N"
    and bin: "\<forall>i < N. \<forall>j < N. f i j = 0 \<or> f i j = 1"
    and sym: "\<forall>i < N. \<forall>j < N. f i j = f j i"
    and diag: "\<forall>i < N. f i i = 0"
  shows "(\<Sum>i < n. \<Sum>j < n. f i j) = 2 * real (card {(i, j). i \<le> j \<and> j < n \<and> 0 < f i j})"
  using \<open>n \<le> N\<close>
proof (induction n)
  case 0
  then show ?case by simp
next
  case (Suc n)
  let ?E = "\<lambda>n. {(i, j). i \<le> j \<and> j < n \<and> 0 < f i j}"
  let ?new = "(\<lambda>i. (i, n)) ` {i. i < n \<and> 0 < f i n}"
  have nN: "n < N" using Suc.prems by simp
  have fin: "finite (?E n)"
    by (rule finite_subset [of _ "{..<n} \<times> {..<n}"]) auto
  have split: "?E (Suc n) = ?E n \<union> ?new"
  proof -
    have "f n n = 0" using diag nN by simp
    then have "\<And>i. i \<le> n \<and> 0 < f i n \<longleftrightarrow> i < n \<and> 0 < f i n"
      by (metis le_neq_implies_less less_imp_le less_irrefl)
    then show ?thesis by (auto simp: less_Suc_eq)
  qed
  have disj: "?E n \<inter> ?new = {}" by auto
  have card_new: "real (card ?new) = (\<Sum>i < n. f i n)"
  proof -
    have "card ?new = card {i. i < n \<and> 0 < f i n}"
      by (rule card_image) (simp add: inj_on_def)
    moreover have "(\<Sum>i < n. f i n) = real (card {i. i < n \<and> 0 < f i n})"
      by (rule count_positive) (use bin nN in auto)
    ultimately show ?thesis by simp
  qed
  have row: "(\<Sum>j < n. f n j) = (\<Sum>i < n. f i n)"
    by (rule sum.cong) (use sym nN in auto)
  have "(\<Sum>i < Suc n. \<Sum>j < Suc n. f i j)
      = (\<Sum>i < n. \<Sum>j < n. f i j) + (\<Sum>i < n. f i n) + (\<Sum>j < n. f n j) + f n n"
    by (simp add: sum.distrib)
  also have "\<dots> = 2 * real (card (?E n)) + 2 * (\<Sum>i < n. f i n)"
    using Suc.IH Suc.prems diag nN row by simp
  also have "\<dots> = 2 * real (card (?E n \<union> ?new))"
    using card_new fin disj by (simp add: card_Un_disjoint)
  finally show ?case using split by simp
qed

lemma binary_threshold:
  "is_binary A \<Longrightarrow> map (map (\<lambda>x. if x > 0 then 1 else x)) A = A"
  unfolding is_binary_def
  by (intro map_idI) (auto intro!: map_idI)

lemma sum_list_rows:
  "sum_list (map sum_list A) = (\<Sum>i < length A. sum_list (A ! i))"
  by (simp add: sum_list_sum_nth atLeast0LessThan)

text \<open>
  C9, as amended. For a symmetric matrix with entries 0 or 1 and a zero diagonal, on
  \<open>N > 0\<close> nodes, \<open>meanDegree\<close> is twice the number of undirected edges divided by
  \<open>N\<close>, and it is the mean over the nodes of the number of neighbours.
\<close>

theorem meanDegree_binary_simple_graph:
  assumes sq: "is_matrix N N A" and pos: "0 < N"
    and bin: "is_binary A" and sym: "is_symmetric A" and diag: "zero_diagonal A"
  shows "meanDegree A = Some (2 * real (edge_count A) / real N)
         \<and> meanDegree A = Some ((\<Sum>i < N. real (card (neighbours A i))) / real N)"
proof -
  have len: "length A = N" using sq by (simp add: is_matrix_def)
  have rows: "length (A ! i) = N" if "i < N" for i
    using sq that by (simp add: is_matrix_def)
  have entry: "A ! i ! j = 0 \<or> A ! i ! j = 1" if "i < N" "j < N" for i j
  proof -
    have "A ! i \<in> set A" using that len by simp
    moreover have "A ! i ! j \<in> set (A ! i)" using that rows by simp
    ultimately show ?thesis using bin unfolding is_binary_def by blast
  qed
  have ne: "A \<noteq> []" using pos len by auto
  have md: "meanDegree A = Some ((\<Sum>i < N. sum_list (A ! i)) / real N)"
    using ne len by (simp add: meanDegree_def Let_def binary_threshold [OF bin] sum_list_rows)
  have rowsum: "sum_list (A ! i) = (\<Sum>j < N. A ! i ! j)" if "i < N" for i
    using rows [OF that] by (simp add: sum_list_nth_lessThan)
  have total: "(\<Sum>i < N. sum_list (A ! i)) = (\<Sum>i < N. \<Sum>j < N. A ! i ! j)"
    by (rule sum.cong) (simp_all add: rowsum)
  have "(\<Sum>i < N. \<Sum>j < N. A ! i ! j)
      = 2 * real (card {(i, j). i \<le> j \<and> j < N \<and> 0 < A ! i ! j})"
    by (rule symmetric_double_sum [of N N "\<lambda>i j. A ! i ! j"])
       (use entry sym diag len in \<open>auto simp: is_symmetric_def zero_diagonal_def\<close>)
  then have edges: "(\<Sum>i < N. \<Sum>j < N. A ! i ! j) = 2 * real (edge_count A)"
    by (simp add: edge_count_def undirected_edges_def len)
  have degree: "sum_list (A ! i) = real (card (neighbours A i))" if "i < N" for i
    unfolding rowsum [OF that] neighbours_def len
    by (rule count_positive) (use entry that in auto)
  have neigh: "(\<Sum>i < N. sum_list (A ! i)) = (\<Sum>i < N. real (card (neighbours A i)))"
    by (rule sum.cong) (simp_all add: degree)
  from md total edges neigh show ?thesis by simp
qed

theorem meanDegree_binary_simple_graph_witness:
  "meanDegree [[0, 1, 1], [1, 0, 0], [1, 0, 0]] = Some (2 * real (edge_count [[0, 1, 1], [1, 0, 0], [1, 0, 0]]) / real 3)
   \<and> meanDegree [[0, 1, 1], [1, 0, 0], [1, 0, 0]] = Some (4 / 3)"
proof -
  let ?A = "[[0, 1, 1], [1, 0, 0], [1, 0, 0 :: real]]"
  have a: "is_matrix 3 3 ?A" by (simp add: is_matrix_def)
  have b: "is_binary ?A" by (simp add: is_binary_def)
  have c: "is_symmetric ?A" by (simp add: is_symmetric_def less_Suc_eq numeral_3_eq_3)
  have d: "zero_diagonal ?A" by (simp add: zero_diagonal_def less_Suc_eq numeral_3_eq_3)
  have e: "meanDegree ?A = Some (4 / 3)" by (simp add: meanDegree_def)
  from meanDegree_binary_simple_graph [OF a _ b c d] e show ?thesis by simp
qed

text \<open>
  C9 as stated covers every 0/1 matrix. A single node with a self-loop has mean degree 1,
  which is neither \<open>2 \<times> 1 / 1\<close> (the loop counted as an edge) nor \<open>2 \<times> 0 / 1\<close>
  (the loop not counted).
\<close>

theorem meanDegree_self_loop_counterexample:
  "is_matrix 1 1 [[1]] \<and> is_binary [[1]] \<and> is_symmetric [[1]]
   \<and> meanDegree [[1]] = Some 1
   \<and> edge_count [[1]] = 1
   \<and> meanDegree [[1]] \<noteq> Some (2 * real (edge_count [[1]]) / real 1)
   \<and> card {(i, j). i < j \<and> j < length [[1 :: real]] \<and> 0 < [[1 :: real]] ! i ! j} = 0
   \<and> meanDegree [[1]] \<noteq> Some (2 * real 0 / real 1)"
proof -
  have e: "undirected_edges [[1]] = {(0, 0)}"
    by (auto simp: undirected_edges_def)
  have s: "{(i, j). i < j \<and> j < length [[1 :: real]] \<and> 0 < [[1 :: real]] ! i ! j} = {}"
    by auto
  have m: "meanDegree [[1]] = Some 1" by (simp add: meanDegree_def)
  show ?thesis
    unfolding s m
    by (simp add: is_matrix_def is_binary_def is_symmetric_def edge_count_def e)
qed

section \<open>expectedEquilibrium: results\<close>

lemma sum_upt: "(\<Sum>k\<leftarrow>[0..<n]. f k) = (\<Sum>k < n. (f k :: real))"
  by (simp add: interv_sum_list_conv_sum_set_nat atLeast0LessThan)

lemma is_matrix_length: "is_matrix n m A \<Longrightarrow> length A = n"
  by (simp add: is_matrix_def)

lemma is_matrix_cols: "is_matrix n m A \<Longrightarrow> 0 < n \<Longrightarrow> cols A = m"
  by (cases A) (auto simp: is_matrix_def cols_def)

lemma eye_matrix: "is_matrix N N (eye N)"
  by (auto simp: is_matrix_def eye_def)

lemma eye_nth: "i < N \<Longrightarrow> j < N \<Longrightarrow> eye N ! i ! j = (if i = j then 1 else 0)"
  by (simp add: eye_def)

lemma diag_matrix_matrix: "length A = N \<Longrightarrow> is_matrix N N (diag_matrix (diag_of A))"
  by (auto simp: is_matrix_def diag_matrix_def diag_of_def)

lemma diag_matrix_nth:
  "length A = N \<Longrightarrow> i < N \<Longrightarrow> j < N \<Longrightarrow>
   diag_matrix (diag_of A) ! i ! j = (if i = j then A ! i ! i else 0)"
  by (simp add: diag_matrix_def diag_of_def)

lemma mat_sub_matrix: "is_matrix n m X \<Longrightarrow> is_matrix n m Y \<Longrightarrow> is_matrix n m (mat_sub X Y)"
  by (auto simp: is_matrix_def mat_sub_def set_zip)

lemma mat_sub_nth:
  "is_matrix n m X \<Longrightarrow> is_matrix n m Y \<Longrightarrow> i < n \<Longrightarrow> j < m \<Longrightarrow>
   mat_sub X Y ! i ! j = X ! i ! j - Y ! i ! j"
  by (simp add: mat_sub_def is_matrix_def)

lemma dot_mat_nth:
  assumes "is_matrix N N X" "is_matrix N N Y" "i < N" "j < N"
  shows "dot_mat X Y ! i ! j = (\<Sum>k < N. X ! i ! k * Y ! k ! j)"
proof -
  have "0 < N" using assms(3) by simp
  then have "cols Y = N" using assms(2) by (simp add: is_matrix_cols)
  then show ?thesis
    using assms by (simp add: dot_mat_def sum_upt is_matrix_length)
qed

lemma dot_vec_length: "length (dot_vec X v) = length X"
  by (simp add: dot_vec_def)

lemma dot_vec_nth:
  "i < length X \<Longrightarrow> dot_vec X v ! i = (\<Sum>k < length v. X ! i ! k * v ! k)"
  by (simp add: dot_vec_def sum_upt)

lemma sum_delta_left:
  "i < (N::nat) \<Longrightarrow> (\<Sum>k < N. (if i = k then (1::real) else 0) * g k) = g i"
proof -
  assume "i < N"
  have "(\<Sum>k < N. (if i = k then (1::real) else 0) * g k) = (\<Sum>k < N. if k = i then g k else 0)"
    by (rule sum.cong) auto
  also have "\<dots> = g i" using \<open>i < N\<close> by (simp add: sum.delta)
  finally show ?thesis .
qed

text \<open>The algebra behind the closed form, on the entries.\<close>

lemma solve_is_fixed_point:
  fixes X C :: "nat \<Rightarrow> nat \<Rightarrow> real" and y :: "nat \<Rightarrow> real"
  assumes inv: "\<forall>j < N. (\<Sum>k < N. ((if i = k then 1 else 0) - C i k) * X k j) = (if i = j then 1 else 0)"
    and i: "i < N"
  shows "(\<Sum>l < N. X i l * y l) = y i + (\<Sum>k < N. C i k * (\<Sum>l < N. X k l * y l))"
proof -
  have col: "(\<Sum>k < N. C i k * X k l) = X i l - (if i = l then 1 else 0)" if "l < N" for l
  proof -
    have "(\<Sum>k < N. ((if i = k then 1 else 0) - C i k) * X k l)
        = (\<Sum>k < N. (if i = k then 1 else 0) * X k l) - (\<Sum>k < N. C i k * X k l)"
      by (simp add: left_diff_distrib sum_subtractf)
    also have "(\<Sum>k < N. (if i = k then 1 else 0) * X k l) = X i l"
      using i by (rule sum_delta_left)
    finally show ?thesis using inv that by simp
  qed
  have "(\<Sum>k < N. C i k * (\<Sum>l < N. X k l * y l)) = (\<Sum>k < N. \<Sum>l < N. C i k * X k l * y l)"
    by (simp add: sum_distrib_left mult.assoc)
  also have "\<dots> = (\<Sum>l < N. \<Sum>k < N. C i k * X k l * y l)"
    by (rule sum.swap)
  also have "\<dots> = (\<Sum>l < N. (\<Sum>k < N. C i k * X k l) * y l)"
    by (simp add: sum_distrib_right)
  also have "\<dots> = (\<Sum>l < N. (X i l - (if i = l then 1 else 0)) * y l)"
    by (rule sum.cong) (simp_all add: col)
  also have "\<dots> = (\<Sum>l < N. X i l * y l) - (\<Sum>l < N. (if i = l then 1 else 0) * y l)"
    by (simp add: left_diff_distrib sum_subtractf)
  also have "(\<Sum>l < N. (if i = l then 1 else 0) * y l) = y i"
    using i by (rule sum_delta_left)
  finally show ?thesis by simp
qed

lemma dot_assoc_entry:
  fixes X B :: "nat \<Rightarrow> nat \<Rightarrow> real" and s :: "nat \<Rightarrow> real"
  shows "(\<Sum>k < N. (\<Sum>l < N. X i l * B l k) * s k) = (\<Sum>l < N. X i l * (\<Sum>k < N. B l k * s k))"
proof -
  have "(\<Sum>k < N. (\<Sum>l < N. X i l * B l k) * s k) = (\<Sum>k < N. \<Sum>l < N. X i l * B l k * s k)"
    by (simp add: sum_distrib_right)
  also have "\<dots> = (\<Sum>l < N. \<Sum>k < N. X i l * B l k * s k)"
    by (rule sum.swap)
  also have "\<dots> = (\<Sum>l < N. X i l * (\<Sum>k < N. B l k * s k))"
    by (simp add: sum_distrib_left mult.assoc)
  finally show ?thesis .
qed

lemma dot_mat_length: "length (dot_mat X Y) = length X"
  by (simp add: dot_mat_def)

lemma expectedEquilibrium_entries:
  assumes A: "is_matrix N N A" and s: "length s = N"
    and inv: "linalg_inv (mat_sub (eye N) (influence A)) = Inr X"
    and X: "is_inverse (mat_sub (eye N) (influence A)) X"
  defines "x \<equiv> dot_vec (dot_mat X (stubbornness A)) s"
  shows "expectedEquilibrium linalg_inv A s = Inr x"
    and "length x = N"
    and "\<forall>i < N. x ! i = (\<Sum>k < N. stubbornness A ! i ! k * s ! k)
                          + (\<Sum>k < N. influence A ! i ! k * x ! k)"
    and "x = dot_vec X (dot_vec (stubbornness A) s)"
proof -
  let ?B = "stubbornness A" and ?C = "influence A"
  let ?M = "mat_sub (eye N) ?C"
  have lenA: "length A = N" using A by (rule is_matrix_length)
  have B: "is_matrix N N ?B"
    unfolding stubbornness_def using lenA by (rule diag_matrix_matrix)
  have C: "is_matrix N N ?C"
    unfolding influence_def using A B by (rule mat_sub_matrix)
  have M: "is_matrix N N ?M" using eye_matrix C by (rule mat_sub_matrix)
  have lenM: "length ?M = N" using M by (rule is_matrix_length)
  have Xm: "is_matrix N N X" and MX: "dot_mat ?M X = eye N"
    using X lenM by (simp_all add: is_inverse_def)
  have lenX: "length X = N" using Xm by (rule is_matrix_length)
  show res: "expectedEquilibrium linalg_inv A s = Inr x"
    using inv by (simp add: expectedEquilibrium_def lenA stubbornness_def influence_def x_def)
  show lenx: "length x = N"
    by (simp add: x_def dot_vec_length dot_mat_length lenX)
  let ?y = "\<lambda>l. \<Sum>k < N. ?B ! l ! k * s ! k"
  have xi: "x ! i = (\<Sum>l < N. X ! i ! l * ?y l)" if "i < N" for i
  proof -
    have "x ! i = (\<Sum>k < N. dot_mat X ?B ! i ! k * s ! k)"
      using that by (simp add: x_def dot_vec_nth dot_mat_length lenX s)
    also have "\<dots> = (\<Sum>k < N. (\<Sum>l < N. X ! i ! l * ?B ! l ! k) * s ! k)"
      by (rule sum.cong) (simp_all add: dot_mat_nth [OF Xm B that])
    also have "\<dots> = (\<Sum>l < N. X ! i ! l * ?y l)"
      by (rule dot_assoc_entry)
    finally show ?thesis .
  qed
  have "x ! i = ?y i + (\<Sum>k < N. ?C ! i ! k * x ! k)" if i: "i < N" for i
  proof -
    have inv_row: "\<forall>j < N. (\<Sum>k < N. ((if i = k then 1 else 0) - ?C ! i ! k) * X ! k ! j)
                     = (if i = j then 1 else 0)"
    proof (intro allI impI)
      fix j assume j: "j < N"
      have "(\<Sum>k < N. ((if i = k then 1 else 0) - ?C ! i ! k) * X ! k ! j)
          = (\<Sum>k < N. ?M ! i ! k * X ! k ! j)"
        by (rule sum.cong) (simp_all add: mat_sub_nth [OF eye_matrix C i] eye_nth [OF i])
      also have "\<dots> = dot_mat ?M X ! i ! j"
        by (simp add: dot_mat_nth [OF M Xm i j])
      also have "\<dots> = (if i = j then 1 else 0)"
        by (simp add: MX eye_nth [OF i j])
      finally show "(\<Sum>k < N. ((if i = k then 1 else 0) - ?C ! i ! k) * X ! k ! j)
                     = (if i = j then 1 else 0)" .
    qed
    have "(\<Sum>l < N. X ! i ! l * ?y l)
        = ?y i + (\<Sum>k < N. ?C ! i ! k * (\<Sum>l < N. X ! k ! l * ?y l))"
      using inv_row i by (rule solve_is_fixed_point)
    also have "(\<Sum>k < N. ?C ! i ! k * (\<Sum>l < N. X ! k ! l * ?y l)) = (\<Sum>k < N. ?C ! i ! k * x ! k)"
      by (rule sum.cong) (simp_all add: xi)
    finally show ?thesis using xi [OF i] by simp
  qed
  then show "\<forall>i < N. x ! i = (\<Sum>k < N. stubbornness A ! i ! k * s ! k)
                          + (\<Sum>k < N. influence A ! i ! k * x ! k)"
    by blast
  have lenB: "length ?B = N" using B by (rule is_matrix_length)
  show "x = dot_vec X (dot_vec ?B s)"
  proof (rule nth_equalityI)
    show "length x = length (dot_vec X (dot_vec ?B s))"
      by (simp add: lenx dot_vec_length lenX)
  next
    fix i assume "i < length x"
    then have i: "i < N" by (simp add: lenx)
    have "dot_vec X (dot_vec ?B s) ! i = (\<Sum>l < N. X ! i ! l * dot_vec ?B s ! l)"
      using i by (simp add: dot_vec_nth dot_vec_length lenX lenB)
    also have "\<dots> = (\<Sum>l < N. X ! i ! l * ?y l)"
      by (rule sum.cong) (simp_all add: dot_vec_nth lenB s)
    finally show "x ! i = dot_vec X (dot_vec ?B s) ! i" using xi [OF i] by simp
  qed
qed

text \<open>
  C1. For an \<open>N \<times> N\<close> matrix \<open>A\<close> and a vector \<open>s\<close> of length \<open>N\<close>, when
  \<open>linalg_inv\<close> returns the inverse \<open>X\<close> of \<open>I - (A - B)\<close>, the solver returns
  \<open>x = (X \<cdot> B) \<cdot> s = X \<cdot> (B \<cdot> s)\<close>, and \<open>x\<close> satisfies \<open>x = B \<cdot> s + (A - B) \<cdot> x\<close>.
\<close>

theorem expectedEquilibrium_fixed_point:
  assumes A: "is_matrix N N A" and s: "length s = N"
    and inv: "linalg_inv (mat_sub (eye N) (influence A)) = Inr X"
    and X: "is_inverse (mat_sub (eye N) (influence A)) X"
  shows "\<exists>x. expectedEquilibrium linalg_inv A s = Inr x
           \<and> x = dot_vec (dot_mat X (stubbornness A)) s
           \<and> x = dot_vec X (dot_vec (stubbornness A) s)
           \<and> length x = N
           \<and> x = vec_add (dot_vec (stubbornness A) s) (dot_vec (influence A) x)"
proof -
  define x where "x = dot_vec (dot_mat X (stubbornness A)) s"
  note ent = expectedEquilibrium_entries [where linalg_inv = linalg_inv, OF A s inv X, folded x_def]
  have lenA: "length A = N" using A by (rule is_matrix_length)
  have lenB: "length (stubbornness A) = N"
    by (simp add: stubbornness_def diag_matrix_def diag_of_def lenA)
  have lenC: "length (influence A) = N"
    by (simp add: influence_def mat_sub_def lenA lenB)
  have "x = vec_add (dot_vec (stubbornness A) s) (dot_vec (influence A) x)"
  proof (rule nth_equalityI)
    show "length x = length (vec_add (dot_vec (stubbornness A) s) (dot_vec (influence A) x))"
      by (simp add: vec_add_def dot_vec_length lenB lenC ent(2))
  next
    fix i assume "i < length x"
    then have i: "i < N" by (simp add: ent(2))
    then show "x ! i = vec_add (dot_vec (stubbornness A) s) (dot_vec (influence A) x) ! i"
      using ent(3) by (simp add: vec_add_def dot_vec_length dot_vec_nth lenB lenC s ent(2))
  qed
  with ent(1,2,4) x_def show ?thesis by blast
qed

lemma upt_2: "[0..<2] = [0, 1]"
  by (simp add: upt_rec)

theorem expectedEquilibrium_fixed_point_witness:
  "\<exists>x. expectedEquilibrium (\<lambda>M. Inr [[8/7, 4/7], [2/7, 8/7]]) [[1/2, 1/2], [1/4, 3/4]] [1, 0] = Inr x
       \<and> x = [4/7, 1/7]
       \<and> x = vec_add (dot_vec (stubbornness [[1/2, 1/2], [1/4, 3/4]]) [1, 0])
                      (dot_vec (influence [[1/2, 1/2], [1/4, 3/4]]) x)"
proof -
  let ?A = "[[1/2, 1/2], [1/4, 3/4 :: real]]"
  let ?X = "[[8/7, 4/7], [2/7, 8/7 :: real]]"
  let ?inv = "\<lambda>M :: matrix. (Inr ?X :: error + matrix)"
  have a: "is_matrix 2 2 ?A" by (simp add: is_matrix_def)
  have s: "length [1, 0 :: real] = 2" by simp
  have M: "mat_sub (eye 2) (influence ?A) = [[1, -1/2], [-1/4, 1]]"
    by (simp add: eye_def influence_def stubbornness_def mat_sub_def diag_matrix_def diag_of_def upt_2)
  have i: "?inv (mat_sub (eye 2) (influence ?A)) = Inr ?X" by simp
  have X: "is_inverse (mat_sub (eye 2) (influence ?A)) ?X"
    unfolding M by (simp add: is_inverse_def is_matrix_def dot_mat_def cols_def eye_def upt_2)
  from expectedEquilibrium_fixed_point [where linalg_inv = ?inv, OF a s i X]
  obtain x where x: "expectedEquilibrium ?inv ?A [1, 0] = Inr x"
      "x = dot_vec (dot_mat ?X (stubbornness ?A)) [1, 0]"
      "x = vec_add (dot_vec (stubbornness ?A) [1, 0]) (dot_vec (influence ?A) x)"
    by blast
  have "x = [4/7, 1/7]"
    unfolding x(2)
    by (simp add: stubbornness_def dot_vec_def dot_mat_def cols_def diag_matrix_def diag_of_def upt_2)
  with x(1,3) show ?thesis by blast
qed

lemma fully_stubborn_influence:
  assumes A: "is_matrix N N A" and off: "off_diagonal_zero A" and "i < N" "k < N"
  shows "influence A ! i ! k = 0"
proof -
  have lenA: "length A = N" using A by (rule is_matrix_length)
  have B: "is_matrix N N (stubbornness A)"
    unfolding stubbornness_def using lenA by (rule diag_matrix_matrix)
  have "influence A ! i ! k = A ! i ! k - stubbornness A ! i ! k"
    unfolding influence_def using A B assms(3,4) by (rule mat_sub_nth)
  also have "stubbornness A ! i ! k = (if i = k then A ! i ! i else 0)"
    unfolding stubbornness_def using lenA assms(3,4) by (rule diag_matrix_nth)
  finally have "influence A ! i ! k = A ! i ! k - (if i = k then A ! i ! i else 0)" .
  then show ?thesis
    using off assms(3,4) lenA by (auto simp: off_diagonal_zero_def)
qed

text \<open>
  C4, as amended. When all entries of \<open>A\<close> off the diagonal are zero, the solver
  returns \<open>B \<cdot> s\<close>, the vector of the products \<open>A[i, i] * s[i]\<close>; it returns \<open>s\<close>
  when every diagonal entry is 1, as for \<open>A = [[1]]\<close> and \<open>s = [5]\<close>.
\<close>

theorem expectedEquilibrium_fully_stubborn:
  assumes A: "is_matrix N N A" and s: "length s = N"
    and off: "off_diagonal_zero A"
    and inv: "linalg_inv (mat_sub (eye N) (influence A)) = Inr X"
    and X: "is_inverse (mat_sub (eye N) (influence A)) X"
  shows "expectedEquilibrium linalg_inv A s = Inr (map2 (*) (diag_of A) s)
         \<and> ((\<forall>i < N. A ! i ! i = 1) \<longrightarrow> expectedEquilibrium linalg_inv A s = Inr s)"
proof -
  define x where "x = dot_vec (dot_mat X (stubbornness A)) s"
  note ent = expectedEquilibrium_entries [where linalg_inv = linalg_inv, OF A s inv X, folded x_def]
  have lenA: "length A = N" using A by (rule is_matrix_length)
  have xi: "x ! i = A ! i ! i * s ! i" if i: "i < N" for i
  proof -
    have "(\<Sum>k < N. influence A ! i ! k * x ! k) = (\<Sum>k < N. 0)"
      by (rule sum.cong) (simp_all add: fully_stubborn_influence [OF A off i])
    moreover have "(\<Sum>k < N. stubbornness A ! i ! k * s ! k)
                 = (\<Sum>k < N. if k = i then A ! i ! i * s ! i else 0)"
      by (rule sum.cong) (use i lenA in \<open>auto simp: stubbornness_def diag_matrix_nth\<close>)
    ultimately show ?thesis
      using ent(3) i by (simp add: sum.delta)
  qed
  have eq: "x = map2 (*) (diag_of A) s"
  proof (rule nth_equalityI)
    show "length x = length (map2 (*) (diag_of A) s)"
      by (simp add: ent(2) diag_of_def lenA s)
  next
    fix i assume "i < length x"
    then have i: "i < N" by (simp add: ent(2))
    then show "x ! i = map2 (*) (diag_of A) s ! i"
      by (simp add: xi diag_of_def lenA s)
  qed
  have "x = s" if ones: "\<forall>i < N. A ! i ! i = 1"
  proof (rule nth_equalityI)
    show "length x = length s" by (simp add: ent(2) s)
  next
    fix i assume "i < length x"
    then have i: "i < N" by (simp add: ent(2))
    then show "x ! i = s ! i" using ones by (simp add: xi)
  qed
  with ent(1) eq show ?thesis by auto
qed

theorem expectedEquilibrium_fully_stubborn_witness:
  "expectedEquilibrium (\<lambda>M. Inr [[1, 0], [0, 1]]) [[1/2, 0], [0, 1]] [5, 3] = Inr [5/2, 3]
   \<and> expectedEquilibrium (\<lambda>M. Inr [[1]]) [[1]] [5] = Inr [5]"
proof -
  let ?A = "[[1/2, 0], [0, 1 :: real]]"
  let ?X = "[[1, 0], [0, 1 :: real]]"
  let ?inv = "\<lambda>M :: matrix. (Inr ?X :: error + matrix)"
  have a: "is_matrix 2 2 ?A" by (simp add: is_matrix_def)
  have s: "length [5, 3 :: real] = 2" by simp
  have off: "off_diagonal_zero ?A"
    by (simp add: off_diagonal_zero_def less_Suc_eq numeral_2_eq_2)
  have M: "mat_sub (eye 2) (influence ?A) = [[1, 0], [0, 1]]"
    by (simp add: eye_def influence_def stubbornness_def mat_sub_def diag_matrix_def diag_of_def upt_2)
  have i: "?inv (mat_sub (eye 2) (influence ?A)) = Inr ?X" by simp
  have X: "is_inverse (mat_sub (eye 2) (influence ?A)) ?X"
    unfolding M by (simp add: is_inverse_def is_matrix_def dot_mat_def cols_def eye_def upt_2)
  have first: "expectedEquilibrium ?inv ?A [5, 3] = Inr [5/2, 3]"
    using expectedEquilibrium_fully_stubborn [where linalg_inv = ?inv, OF a s off i X]
    by (simp add: diag_of_def upt_2)
  let ?A1 = "[[1 :: real]]"
  let ?inv1 = "\<lambda>M :: matrix. (Inr [[1]] :: error + matrix)"
  have a1: "is_matrix 1 1 ?A1" by (simp add: is_matrix_def)
  have s1: "length [5 :: real] = 1" by simp
  have off1: "off_diagonal_zero ?A1" by (simp add: off_diagonal_zero_def)
  have M1: "mat_sub (eye 1) (influence ?A1) = [[1]]"
    by (simp add: eye_def influence_def stubbornness_def mat_sub_def diag_matrix_def diag_of_def)
  have i1: "?inv1 (mat_sub (eye 1) (influence ?A1)) = Inr [[1]]" by simp
  have X1: "is_inverse (mat_sub (eye 1) (influence ?A1)) [[1]]"
    unfolding M1 by (simp add: is_inverse_def is_matrix_def dot_mat_def cols_def eye_def)
  have ones: "\<forall>i < 1. ?A1 ! i ! i = 1" by simp
  have second: "expectedEquilibrium ?inv1 ?A1 [5] = Inr [5]"
    using expectedEquilibrium_fully_stubborn [where linalg_inv = ?inv1, OF a1 s1 off1 i1 X1] ones
    by blast
  from first second show ?thesis by (intro conjI)
qed

text \<open>
  C4 as stated promises \<open>x = s\<close> for every diagonal. A single node of stubbornness
  \<open>1/2\<close> and belief 5 has \<open>I - (A - B) = [[1]]\<close>, whose inverse is \<open>[[1]]\<close>, and the
  solver returns \<open>5/2\<close>.
\<close>

theorem expectedEquilibrium_half_stubborn_counterexample:
  "is_matrix 1 1 [[1/2]] \<and> off_diagonal_zero [[1/2]]
   \<and> mat_sub (eye 1) (influence [[1/2]]) = [[1]]
   \<and> is_inverse [[1]] [[1]]
   \<and> expectedEquilibrium (\<lambda>M. Inr [[1]]) [[1/2]] [5] = Inr [5/2]
   \<and> expectedEquilibrium (\<lambda>M. Inr [[1]]) [[1/2]] [5] \<noteq> Inr [5]"
  by (simp add: is_matrix_def off_diagonal_zero_def eye_def influence_def stubbornness_def
      mat_sub_def diag_matrix_def diag_of_def is_inverse_def dot_mat_def dot_vec_def cols_def
      expectedEquilibrium_def)

section \<open>randomSpanningTree: results\<close>

lemma is_matrix_nth_conv:
  "is_matrix n m A \<longleftrightarrow> length A = n \<and> (\<forall>i < n. length (A ! i) = m)"
  by (auto simp: is_matrix_def all_set_conv_all_nth)

lemma zeros_matrix: "is_matrix n m (zeros n m)"
  by (simp add: is_matrix_nth_conv zeros_def)

lemma zeros_nth: "i < n \<Longrightarrow> j < m \<Longrightarrow> zeros n m ! i ! j = 0"
  by (simp add: zeros_def)

lemma set_entry_matrix: "is_matrix n m A \<Longrightarrow> is_matrix n m (set_entry A a b w)"
  by (cases "a < length A") (auto simp: is_matrix_nth_conv set_entry_def nth_list_update)

lemma set_entry_nth:
  "is_matrix n m A \<Longrightarrow> a < n \<Longrightarrow> b < m \<Longrightarrow> i < n \<Longrightarrow> j < m \<Longrightarrow>
   set_entry A a b w ! i ! j = (if i = a \<and> j = b then w else A ! i ! j)"
  by (auto simp: is_matrix_nth_conv set_entry_def nth_list_update)

text \<open>Writing \<open>w\<close> at \<open>(a, b)\<close> and at \<open>(b, a)\<close>, as both loops of the module do.\<close>

lemma set_both_nth:
  assumes "is_matrix N N A" "a < N" "b < N" "i < N" "j < N"
  shows "set_entry (set_entry A a b w) b a w ! i ! j
         = (if (i = a \<and> j = b) \<or> (i = b \<and> j = a) then w else A ! i ! j)"
proof -
  have 1: "is_matrix N N (set_entry A a b w)"
    using assms(1) by (rule set_entry_matrix)
  have "set_entry (set_entry A a b w) b a w ! i ! j
        = (if i = b \<and> j = a then w else set_entry A a b w ! i ! j)"
    using 1 assms(3,2,4,5) by (rule set_entry_nth)
  also have "set_entry A a b w ! i ! j = (if i = a \<and> j = b then w else A ! i ! j)"
    using assms by (rule set_entry_nth)
  finally have both: "set_entry (set_entry A a b w) b a w ! i ! j
        = (if i = b \<and> j = a then w else if i = a \<and> j = b then w else A ! i ! j)" .
  show ?thesis
  proof (cases "i = b \<and> j = a")
    case True
    then have c: "(i = a \<and> j = b) \<or> (i = b \<and> j = a)" by (rule disjI2)
    show ?thesis unfolding both if_P [OF True] if_P [OF c] by (rule refl)
  next
    case nba: False
    show ?thesis
    proof (cases "i = a \<and> j = b")
      case True
      then have c: "(i = a \<and> j = b) \<or> (i = b \<and> j = a)" by (rule disjI1)
      show ?thesis unfolding both if_not_P [OF nba] if_P [OF True] if_P [OF c] by (rule refl)
    next
      case False
      with nba have c: "\<not> ((i = a \<and> j = b) \<or> (i = b \<and> j = a))" by blast
      show ?thesis unfolding both if_not_P [OF nba] if_not_P [OF False] if_not_P [OF c]
        by (rule refl)
    qed
  qed
qed

lemma set_both_symmetric:
  assumes "is_matrix N N A" "a < N" "b < N" "i < N" "j < N" "A ! i ! j = A ! j ! i"
  shows "set_entry (set_entry A a b w) b a w ! i ! j = set_entry (set_entry A a b w) b a w ! j ! i"
proof -
  have l: "set_entry (set_entry A a b w) b a w ! i ! j
         = (if (i = a \<and> j = b) \<or> (i = b \<and> j = a) then w else A ! i ! j)"
    using assms(1-5) by (rule set_both_nth)
  have r: "set_entry (set_entry A a b w) b a w ! j ! i
         = (if (j = a \<and> i = b) \<or> (j = b \<and> i = a) then w else A ! j ! i)"
    using assms(1-3) assms(5) assms(4) by (rule set_both_nth)
  show ?thesis
  proof (cases "(i = a \<and> j = b) \<or> (i = b \<and> j = a)")
    case True
    then have "(j = a \<and> i = b) \<or> (j = b \<and> i = a)" by blast
    with True show ?thesis by (simp only: l r if_True)
  next
    case False
    then have "\<not> ((j = a \<and> i = b) \<or> (j = b \<and> i = a))" by blast
    with False show ?thesis by (simp only: l r if_False assms(6))
  qed
qed

lemma is_permutation_length: "is_permutation N nodes \<Longrightarrow> length nodes = N"
  unfolding is_permutation_def by (metis card_atLeastLessThan diff_zero distinct_card)

lemma is_permutation_nth: "is_permutation N nodes \<Longrightarrow> k < N \<Longrightarrow> nodes ! k < N"
  using is_permutation_length [of N nodes] nth_mem [of k nodes]
  unfolding is_permutation_def by auto

lemma tree_step_fst:
  "fst (tree_step rw nodes draws (A, c) i)
   = set_entry (set_entry A (nodes ! (i - 1)) (nodes ! i) (if rw then draws c else 1))
       (nodes ! i) (nodes ! (i - 1)) (if rw then draws c else 1)"
  by (simp add: tree_step_def Let_def)

text \<open>
  The state of the loop of \<open>randomSpanningTree\<close> after the iterations \<open>1, ..., m - 1\<close>.
\<close>

lemma tree_loop_invariant:
  fixes c :: nat
  assumes perm: "is_permutation N nodes"
    and nz: "rw \<longrightarrow> (\<forall>k. draws k \<noteq> 0)"
    and m: "m \<le> N"
  defines "A \<equiv> fst (foldl (tree_step rw nodes draws) (zeros N N, c) [1..<m])"
  shows "is_matrix N N A"
    and "\<forall>i < N. \<forall>j < N. A ! i ! j = A ! j ! i"
    and "\<forall>i < N. \<forall>j < N. A ! i ! j \<noteq> 0 \<longleftrightarrow> (\<exists>k. 1 \<le> k \<and> k < m \<and> joined_at nodes k i j)"
proof -
  let ?st = "\<lambda>m. foldl (tree_step rw nodes draws) (zeros N N, c) [1..<m]"
  let ?inv = "\<lambda>m B. is_matrix N N B \<and> (\<forall>i < N. \<forall>j < N. B ! i ! j = B ! j ! i)
     \<and> (\<forall>i < N. \<forall>j < N. B ! i ! j \<noteq> 0 \<longleftrightarrow> (\<exists>k. 1 \<le> k \<and> k < m \<and> joined_at nodes k i j))"
  have "?inv m (fst (?st m))" using m
  proof (induction m)
    case 0
    then show ?case by (simp add: zeros_matrix zeros_nth)
  next
    case (Suc m)
    show ?case
    proof (cases "m = 0")
      case True
      then show ?thesis by (simp add: zeros_matrix zeros_nth)
    next
      case False
      then have upt: "[1..<Suc m] = [1..<m] @ [m]" by simp
      obtain B d where st: "?st m = (B, d)" by (cases "?st m")
      have IH: "?inv m B" using Suc st by simp
      let ?a = "nodes ! (m - 1)" and ?b = "nodes ! m"
      let ?w = "if rw then draws d else 1"
      let ?B' = "set_entry (set_entry B ?a ?b ?w) ?b ?a ?w"
      have B': "fst (?st (Suc m)) = ?B'"
        by (simp only: upt foldl_append foldl_Cons foldl_Nil st tree_step_fst)
      have a: "?a < N" and b: "?b < N"
        using perm Suc.prems by (simp_all add: is_permutation_nth)
      have w: "?w \<noteq> 0" using nz by simp
      have Bm: "is_matrix N N B" using IH by simp
      have entry: "?B' ! i ! j = (if (i = ?a \<and> j = ?b) \<or> (i = ?b \<and> j = ?a) then ?w else B ! i ! j)"
        if "i < N" "j < N" for i j
        using Bm a b that by (rule set_both_nth)
      have 1: "is_matrix N N ?B'" using Bm by (simp add: set_entry_matrix)
      have 2: "\<forall>i < N. \<forall>j < N. ?B' ! i ! j = ?B' ! j ! i"
      proof (intro allI impI)
        fix i j assume ij: "i < N" "j < N"
        have "B ! i ! j = B ! j ! i" using IH ij by blast
        with Bm a b ij show "?B' ! i ! j = ?B' ! j ! i"
          by (rule set_both_symmetric)
      qed
      have 3: "?B' ! i ! j \<noteq> 0 \<longleftrightarrow> (\<exists>k. 1 \<le> k \<and> k < Suc m \<and> joined_at nodes k i j)"
        if ij: "i < N" "j < N" for i j
      proof (cases "joined_at nodes m i j")
        case True
        then have c: "(i = ?a \<and> j = ?b) \<or> (i = ?b \<and> j = ?a)"
          unfolding joined_at_def .
        have "?B' ! i ! j = ?w" unfolding entry [OF ij] if_P [OF c] by (rule refl)
        moreover have "1 \<le> m \<and> m < Suc m" using False by simp
        ultimately show ?thesis using w True by metis
      next
        case nj: False
        then have c: "\<not> ((i = ?a \<and> j = ?b) \<or> (i = ?b \<and> j = ?a))"
          unfolding joined_at_def .
        have "?B' ! i ! j = B ! i ! j" unfolding entry [OF ij] if_not_P [OF c] by (rule refl)
        moreover have "B ! i ! j \<noteq> 0 \<longleftrightarrow> (\<exists>k. 1 \<le> k \<and> k < m \<and> joined_at nodes k i j)"
          using IH ij by blast
        moreover have "(\<exists>k. 1 \<le> k \<and> k < Suc m \<and> joined_at nodes k i j)
                 \<longleftrightarrow> (\<exists>k. 1 \<le> k \<and> k < m \<and> joined_at nodes k i j)"
          using nj by (metis less_Suc_eq)
        ultimately show ?thesis by simp
      qed
      from 1 2 3 show ?thesis unfolding B' by blast
    qed
  qed
  then show "is_matrix N N A"
    and "\<forall>i < N. \<forall>j < N. A ! i ! j = A ! j ! i"
    and "\<forall>i < N. \<forall>j < N. A ! i ! j \<noteq> 0 \<longleftrightarrow> (\<exists>k. 1 \<le> k \<and> k < m \<and> joined_at nodes k i j)"
    unfolding A_def by blast+
qed

lemma joined_at_commute: "joined_at nodes k i j \<longleftrightarrow> joined_at nodes k j i"
  unfolding joined_at_def by blast

lemma joined_at_in_range:
  assumes "is_permutation N nodes" "1 \<le> k" "k < N" "joined_at nodes k i j"
  shows "i < N \<and> j < N"
proof -
  have "nodes ! k < N" using assms(1,3) by (rule is_permutation_nth)
  moreover have "nodes ! (k - 1) < N"
    using assms(1) by (rule is_permutation_nth) (use assms(3) in simp)
  ultimately show ?thesis using assms(4) unfolding joined_at_def by auto
qed

lemma joined_at_distinct:
  assumes "is_permutation N nodes" "1 \<le> k" "k < N" "joined_at nodes k i j"
  shows "i \<noteq> j"
proof -
  have d: "distinct nodes" and len: "length nodes = N"
    using assms(1) is_permutation_length [OF assms(1)] by (simp_all add: is_permutation_def)
  have "k - 1 < length nodes" "k < length nodes" "k - 1 \<noteq> k"
    using assms(2,3) len by simp_all
  then have "nodes ! (k - 1) \<noteq> nodes ! k"
    using d by (simp add: nth_eq_iff_index_eq)
  then show ?thesis using assms(4) unfolding joined_at_def by auto
qed

text \<open>What \<open>randomSpanningTree\<close> returns, entry by entry.\<close>

lemma tree_result:
  fixes c :: nat
  assumes perm: "is_permutation N nodes"
    and nz: "rw \<longrightarrow> (\<forall>k. draws k \<noteq> 0)"
  defines "A \<equiv> fst (randomSpanningTree N rw nodes draws c)"
  shows "is_matrix N N A"
    and "is_symmetric A"
    and "adjacent A = {(i, j). \<exists>k. 1 \<le> k \<and> k < N \<and> joined_at nodes k i j}"
    and "zero_diagonal A"
proof -
  note inv = tree_loop_invariant [OF perm nz order_refl, of c, folded randomSpanningTree_def, folded A_def]
  show m: "is_matrix N N A" by (rule inv(1))
  then have len: "length A = N" by (simp add: is_matrix_def)
  show "is_symmetric A" using inv(2) by (simp add: is_symmetric_def len)
  show "adjacent A = {(i, j). \<exists>k. 1 \<le> k \<and> k < N \<and> joined_at nodes k i j}"
  proof (rule set_eqI, clarify)
    fix i j
    show "(i, j) \<in> adjacent A \<longleftrightarrow> (i, j) \<in> {(i, j). \<exists>k. 1 \<le> k \<and> k < N \<and> joined_at nodes k i j}"
    proof
      assume "(i, j) \<in> adjacent A"
      then have "i < N" "j < N" "A ! i ! j \<noteq> 0" by (simp_all add: adjacent_def len)
      then show "(i, j) \<in> {(i, j). \<exists>k. 1 \<le> k \<and> k < N \<and> joined_at nodes k i j}"
        using inv(3) by simp
    next
      assume "(i, j) \<in> {(i, j). \<exists>k. 1 \<le> k \<and> k < N \<and> joined_at nodes k i j}"
      then obtain k where k: "1 \<le> k" "k < N" "joined_at nodes k i j" by blast
      then have ij: "i < N \<and> j < N" using perm joined_at_in_range by blast
      then have "A ! i ! j \<noteq> 0" using inv(3) k by blast
      then show "(i, j) \<in> adjacent A" using ij by (simp add: adjacent_def len)
    qed
  qed
  show "zero_diagonal A"
    unfolding zero_diagonal_def len
  proof (intro allI impI)
    fix i assume i: "i < N"
    have "\<not> (\<exists>k. 1 \<le> k \<and> k < N \<and> joined_at nodes k i i)"
      using joined_at_distinct [OF perm] by blast
    then show "A ! i ! i = 0" using inv(3) i by blast
  qed
qed

lemma tree_connected:
  fixes c :: nat
  assumes perm: "is_permutation N nodes"
    and nz: "rw \<longrightarrow> (\<forall>k. draws k \<noteq> 0)"
  shows "connected (fst (randomSpanningTree N rw nodes draws c))"
proof -
  define A where "A = fst (randomSpanningTree N rw nodes draws c)"
  note res = tree_result [OF perm nz, of c, folded A_def]
  have len: "length A = N" using res(1) by (simp add: is_matrix_def)
  have lenp: "length nodes = N" using perm by (rule is_permutation_length)
  have step: "(nodes ! k, nodes ! Suc k) \<in> adjacent A" if "Suc k < N" for k
  proof -
    have "joined_at nodes (Suc k) (nodes ! k) (nodes ! Suc k)"
      by (simp add: joined_at_def)
    then show ?thesis unfolding res(3) using that by auto
  qed
  have reach: "(nodes ! 0, nodes ! k) \<in> (adjacent A)\<^sup>*" if "k < N" for k
    using that
  proof (induction k)
    case 0
    then show ?case by simp
  next
    case (Suc k)
    then have "(nodes ! 0, nodes ! k) \<in> (adjacent A)\<^sup>*" by simp
    moreover have "(nodes ! k, nodes ! Suc k) \<in> adjacent A" using Suc.prems by (rule step)
    ultimately show ?case by (rule rtrancl_into_rtrancl)
  qed
  have "sym (adjacent A)"
    unfolding res(3) by (rule symI) (use joined_at_commute in auto)
  then have symr: "sym ((adjacent A)\<^sup>*)" by (rule sym_rtrancl)
  have "(i, j) \<in> (adjacent A)\<^sup>*" if "i < N" "j < N" for i j
  proof -
    have "i \<in> set nodes" "j \<in> set nodes"
      using perm that by (simp_all add: is_permutation_def)
    then obtain a b where a: "a < N" "nodes ! a = i" and b: "b < N" "nodes ! b = j"
      unfolding in_set_conv_nth lenp by blast
    have "(nodes ! 0, i) \<in> (adjacent A)\<^sup>*" using reach [OF a(1)] a(2) by simp
    then have "(i, nodes ! 0) \<in> (adjacent A)\<^sup>*" using symr by (rule symD [rotated])
    moreover have "(nodes ! 0, j) \<in> (adjacent A)\<^sup>*" using reach [OF b(1)] b(2) by simp
    ultimately show ?thesis by (rule rtrancl_trans)
  qed
  then show ?thesis unfolding A_def [symmetric] connected_def len by blast
qed

lemma ordered_pair:
  fixes i j a b :: nat
  shows "(i \<le> j \<and> ((i = a \<and> j = b) \<or> (i = b \<and> j = a))) \<longleftrightarrow> (i = min a b \<and> j = max a b)"
  by (cases "a \<le> b") (auto simp: min_def max_def)

lemma unordered_eq:
  fixes a b c d :: nat
  shows "(min a b, max a b) = (min c d, max c d) \<Longrightarrow> (a = c \<and> b = d) \<or> (a = d \<and> b = c)"
  by (cases "a \<le> b"; cases "c \<le> d") (auto simp: min_def max_def)

lemma consecutive_unique:
  fixes k l :: nat
  assumes "1 \<le> k" "1 \<le> l" "(k - 1 = l - 1 \<and> k = l) \<or> (k - 1 = l \<and> k = l - 1)"
  shows "k = l"
  using assms by arith

lemma tree_edge_count:
  fixes c :: nat
  assumes perm: "is_permutation N nodes"
    and nz: "rw \<longrightarrow> (\<forall>k. draws k \<noteq> 0)"
  shows "card (nonzero_edges (fst (randomSpanningTree N rw nodes draws c))) = N - 1"
proof -
  define A where "A = fst (randomSpanningTree N rw nodes draws c)"
  note res = tree_result [OF perm nz, of c, folded A_def]
  have len: "length A = N" using res(1) by (simp add: is_matrix_def)
  have d: "distinct nodes" and lenp: "length nodes = N"
    using perm is_permutation_length [OF perm] by (simp_all add: is_permutation_def)
  let ?e = "\<lambda>k. (min (nodes ! (k - 1)) (nodes ! k), max (nodes ! (k - 1)) (nodes ! k))"
  have edges: "nonzero_edges A = ?e ` {1..<N}"
  proof (rule set_eqI, clarify)
    fix i j
    have "(i, j) \<in> nonzero_edges A \<longleftrightarrow> i \<le> j \<and> (i, j) \<in> adjacent A"
      by (auto simp: nonzero_edges_def adjacent_def)
    also have "\<dots> \<longleftrightarrow> i \<le> j \<and> (\<exists>k. 1 \<le> k \<and> k < N \<and> joined_at nodes k i j)"
      unfolding res(3) by simp
    also have "\<dots> \<longleftrightarrow> (\<exists>k. 1 \<le> k \<and> k < N \<and> i \<le> j \<and> joined_at nodes k i j)"
      by blast
    also have "\<dots> \<longleftrightarrow> (\<exists>k. 1 \<le> k \<and> k < N \<and> (i, j) = ?e k)"
      unfolding joined_at_def ordered_pair by simp
    also have "\<dots> \<longleftrightarrow> (i, j) \<in> ?e ` {1..<N}"
      unfolding image_iff Bex_def atLeastLessThan_iff by blast
    finally show "(i, j) \<in> nonzero_edges A \<longleftrightarrow> (i, j) \<in> ?e ` {1..<N}" .
  qed
  have inj: "inj_on ?e {1..<N}"
  proof (rule inj_onI)
    fix k l assume k: "k \<in> {1..<N}" and l: "l \<in> {1..<N}" and eq: "?e k = ?e l"
    have idx: "nodes ! x = nodes ! y \<longleftrightarrow> x = y" if "x < N" "y < N" for x y
      using d that lenp by (simp add: nth_eq_iff_index_eq)
    have kl: "1 \<le> k" "k < N" "1 \<le> l" "l < N" "k - 1 < N" "l - 1 < N"
      using k l by auto
    from eq have "(nodes ! (k - 1) = nodes ! (l - 1) \<and> nodes ! k = nodes ! l)
                \<or> (nodes ! (k - 1) = nodes ! l \<and> nodes ! k = nodes ! (l - 1))"
      by (rule unordered_eq)
    then have "(k - 1 = l - 1 \<and> k = l) \<or> (k - 1 = l \<and> k = l - 1)"
      unfolding idx [OF kl(5,6)] idx [OF kl(2,4)] idx [OF kl(5,4)] idx [OF kl(2,6)] .
    with kl(1,3) show "k = l" by (rule consecutive_unique)
  qed
  have "card (nonzero_edges A) = card {1..<N}"
    unfolding edges using inj by (rule card_image)
  then show ?thesis unfolding A_def [symmetric] by simp
qed

text \<open>
  For nonzero weights (always so in binary mode) the result is a spanning tree: it is
  connected, has \<open>N - 1\<close> edges and is symmetric.
\<close>

lemma randomSpanningTree_nonzero_draws:
  fixes c :: nat
  assumes perm: "is_permutation N nodes"
    and nz: "rw \<longrightarrow> (\<forall>k. draws k \<noteq> 0)"
  shows "is_matrix N N (fst (randomSpanningTree N rw nodes draws c))"
    and "connected (fst (randomSpanningTree N rw nodes draws c))"
    and "card (nonzero_edges (fst (randomSpanningTree N rw nodes draws c))) = N - 1"
    and "is_symmetric (fst (randomSpanningTree N rw nodes draws c))"
  using tree_result(1,2) [OF perm nz] tree_connected [OF perm nz] tree_edge_count [OF perm nz]
  by blast+

lemma upt_1_2: "[1..<2] = [1]"
  by (simp add: upt_rec)

text \<open>
  C2. In weighted mode the weight of an edge is the value drawn, and \<open>rand.random()\<close>
  ranges over \<open>[0, 1)\<close>. On two nodes with the draw 0 the matrix returned is the zero
  matrix: node 1 is not reachable from node 0 and there is no edge, where C2 asks for a
  connected graph with one edge.
\<close>

theorem randomSpanningTree_zero_draw:
  "is_permutation 2 [0, 1]
   \<and> fst (randomSpanningTree 2 True [0, 1] (\<lambda>k. 0) 0) = [[0, 0], [0, 0]]
   \<and> (0, 1) \<notin> (adjacent (fst (randomSpanningTree 2 True [0, 1] (\<lambda>k. 0) 0)))\<^sup>*
   \<and> card (nonzero_edges (fst (randomSpanningTree 2 True [0, 1] (\<lambda>k. 0) 0))) = 0"
proof -
  have p: "is_permutation 2 [0, 1]"
    by (auto simp: is_permutation_def)
  have r: "fst (randomSpanningTree 2 True [0, 1] (\<lambda>k. 0) 0) = [[0, 0], [0, 0]]"
    by (simp add: randomSpanningTree_def upt_1_2 tree_step_def zeros_def set_entry_def
        numeral_2_eq_2)
  have adj: "adjacent [[0, 0], [0, 0]] = {}"
    by (auto simp: adjacent_def nth_Cons split: nat.splits)
  have "(0, 1) \<notin> (adjacent [[0, 0], [0, 0]])\<^sup>*"
    unfolding adj by simp
  moreover have "card (nonzero_edges [[0, 0], [0, 0]]) = 0"
  proof -
    have "nonzero_edges [[0, 0], [0, 0]] = {}"
      by (auto simp: nonzero_edges_def nth_Cons split: nat.splits)
    then show ?thesis by simp
  qed
  ultimately show ?thesis using p unfolding r by (intro conjI) simp_all
qed

section \<open>gnp: results\<close>

lemma gnp_step_cases:
  "gnp_step p rw draws i (A, c) j =
     (if draws c < p
      then (set_entry (set_entry A i j (if rw then draws (c + 1) else 1)) j i
              (if rw then draws (c + 1) else 1),
            if rw then c + 2 else c + 1)
      else (A, c + 1))"
  by (simp add: gnp_step_def Let_def)

lemma gnp_step_matrix:
  "is_matrix N N (fst st) \<Longrightarrow> is_matrix N N (fst (gnp_step p rw draws i st j))"
  by (cases st) (simp add: gnp_step_cases set_entry_matrix)

lemma gnp_step_other:
  assumes "is_matrix N N (fst st)" "i < N" "j < N" "d < N" "\<not> (i = d \<and> j = d)"
  shows "fst (gnp_step p rw draws i st j) ! d ! d = fst st ! d ! d"
proof (cases st)
  case (Pair A c)
  have A: "is_matrix N N A" using assms(1) Pair by simp
  have c: "\<not> ((d = i \<and> d = j) \<or> (d = j \<and> d = i))" using assms(5) by blast
  have "set_entry (set_entry A i j w) j i w ! d ! d = A ! d ! d" for w
    unfolding set_both_nth [OF A assms(2,3) assms(4,4)] if_not_P [OF c] by (rule refl)
  then show ?thesis by (simp add: Pair gnp_step_cases)
qed

lemma gnp_step_self:
  assumes "is_matrix N N A" "d < N"
  shows "fst (gnp_step p rw draws d (A, c) d) ! d ! d
         = (if draws c < p then (if rw then draws (c + 1) else 1) else A ! d ! d)"
proof -
  have "set_entry (set_entry A d d w) d d w ! d ! d = w" for w
    unfolding set_both_nth [OF assms(1) assms(2,2) assms(2,2)] by simp
  then show ?thesis by (simp add: gnp_step_cases)
qed

lemma inner_loop_other:
  assumes "is_matrix N N (fst st)" "i < N" "d < N" "\<forall>j \<in> set js. j < N \<and> \<not> (i = d \<and> j = d)"
  shows "is_matrix N N (fst (foldl (gnp_step p rw draws i) st js))
         \<and> fst (foldl (gnp_step p rw draws i) st js) ! d ! d = fst st ! d ! d"
  using assms(1,4)
proof (induction js arbitrary: st)
  case Nil
  then show ?case by simp
next
  case (Cons j js)
  let ?st = "gnp_step p rw draws i st j"
  have j: "j < N" "\<not> (i = d \<and> j = d)" using Cons.prems(2) by simp_all
  have m: "is_matrix N N (fst ?st)" using Cons.prems(1) by (rule gnp_step_matrix)
  have e: "fst ?st ! d ! d = fst st ! d ! d"
    using Cons.prems(1) assms(2) j(1) assms(3) j(2) by (rule gnp_step_other)
  have "\<forall>j \<in> set js. j < N \<and> \<not> (i = d \<and> j = d)" using Cons.prems(2) by simp
  from Cons.IH [OF m this] e show ?case by simp
qed

lemma outer_loop_other:
  assumes "is_matrix N N (fst st)" "d < N" "\<forall>i \<in> set is. i < N \<and> i \<noteq> d"
  shows "is_matrix N N (fst (foldl (\<lambda>st i. foldl (gnp_step p rw draws i) st [0..<N]) st is))
         \<and> fst (foldl (\<lambda>st i. foldl (gnp_step p rw draws i) st [0..<N]) st is) ! d ! d = fst st ! d ! d"
  using assms(1,3)
proof (induction "is" arbitrary: st)
  case Nil
  then show ?case by simp
next
  case (Cons i "is")
  let ?st = "foldl (gnp_step p rw draws i) st [0..<N]"
  have i: "i < N" "i \<noteq> d" using Cons.prems(2) by simp_all
  have "\<forall>j \<in> set [0..<N]. j < N \<and> \<not> (i = d \<and> j = d)" using i(2) by simp
  from inner_loop_other [OF Cons.prems(1) i(1) assms(2) this]
  have m: "is_matrix N N (fst ?st)" and e: "fst ?st ! d ! d = fst st ! d ! d" by blast+
  have "\<forall>i \<in> set is. i < N \<and> i \<noteq> d" using Cons.prems(2) by simp
  from Cons.IH [OF m this] e show ?case by simp
qed

lemma upt_split: "d < N \<Longrightarrow> [0..<N] = [0..<d] @ d # [Suc d..<N]"
  by (metis le_add1 less_imp_add_positive upt_add_eq_append upt_conv_Cons plus_nat.add_0 less_or_eq_imp_le)

lemma gnp_loop_split:
  assumes "d < N"
  shows "gnp_loop N p rw draws st =
         foldl (\<lambda>st i. foldl (gnp_step p rw draws i) st [0..<N])
           (foldl (gnp_step p rw draws d)
              (gnp_step p rw draws d (reach_pair N p rw draws st d d) d) [Suc d..<N])
           [Suc d..<N]"
proof -
  have "gnp_loop N p rw draws st =
        foldl (\<lambda>st i. foldl (gnp_step p rw draws i) st [0..<N]) st ([0..<d] @ d # [Suc d..<N])"
    unfolding gnp_loop_def using upt_split [OF assms] by simp
  also have "\<dots> = foldl (\<lambda>st i. foldl (gnp_step p rw draws i) st [0..<N])
          (foldl (gnp_step p rw draws d)
             (foldl (\<lambda>st i. foldl (gnp_step p rw draws i) st [0..<N]) st [0..<d]) [0..<N])
          [Suc d..<N]"
    by simp
  also have "foldl (gnp_step p rw draws d)
             (foldl (\<lambda>st i. foldl (gnp_step p rw draws i) st [0..<N]) st [0..<d]) [0..<N]
        = foldl (gnp_step p rw draws d)
             (foldl (\<lambda>st i. foldl (gnp_step p rw draws i) st [0..<N]) st [0..<d])
             ([0..<d] @ d # [Suc d..<N])"
    using upt_split [OF assms] by simp
  also have "\<dots> = foldl (gnp_step p rw draws d)
              (gnp_step p rw draws d (reach_pair N p rw draws st d d) d) [Suc d..<N]"
    by (simp add: reach_pair_def)
  finally show ?thesis .
qed

lemma reach_pair_other:
  assumes "is_matrix N N (fst st)" "d < N"
  shows "is_matrix N N (fst (reach_pair N p rw draws st d d))
         \<and> fst (reach_pair N p rw draws st d d) ! d ! d = fst st ! d ! d"
proof -
  let ?rows = "foldl (\<lambda>st i. foldl (gnp_step p rw draws i) st [0..<N]) st [0..<d]"
  have "\<forall>i \<in> set [0..<d]. i < N \<and> i \<noteq> d" using assms(2) by simp
  from outer_loop_other [OF assms this]
  have m: "is_matrix N N (fst ?rows)" and e: "fst ?rows ! d ! d = fst st ! d ! d" by blast+
  have "\<forall>j \<in> set [0..<d]. j < N \<and> \<not> (d = d \<and> j = d)" using assms(2) by simp
  from inner_loop_other [OF m assms(2,2) this] e show ?thesis
    unfolding reach_pair_def by simp
qed

lemma gnp_loop_diagonal:
  fixes p :: real and rw :: bool and draws :: rng
  assumes st: "is_matrix N N (fst st)" and d: "d < N"
  defines "c \<equiv> snd (reach_pair N p rw draws st d d)"
  shows "is_matrix N N (fst (gnp_loop N p rw draws st))"
    and "fst (gnp_loop N p rw draws st) ! d ! d
         = (if draws c < p then (if rw then draws (c + 1) else 1) else fst st ! d ! d)"
proof -
  obtain B where B: "reach_pair N p rw draws st d d = (B, c)"
    unfolding c_def by (cases "reach_pair N p rw draws st d d") simp
  have Bm: "is_matrix N N B" and Be: "B ! d ! d = fst st ! d ! d"
    using reach_pair_other [OF st d, of p rw draws] unfolding B by simp_all
  let ?s1 = "gnp_step p rw draws d (B, c) d"
  have m1: "is_matrix N N (fst ?s1)" using Bm by (simp add: gnp_step_matrix)
  have e1: "fst ?s1 ! d ! d = (if draws c < p then (if rw then draws (c + 1) else 1) else B ! d ! d)"
    using Bm d by (rule gnp_step_self)
  let ?s2 = "foldl (gnp_step p rw draws d) ?s1 [Suc d..<N]"
  have "\<forall>j \<in> set [Suc d..<N]. j < N \<and> \<not> (d = d \<and> j = d)" by simp
  from inner_loop_other [OF m1 d d this]
  have m2: "is_matrix N N (fst ?s2)" and e2: "fst ?s2 ! d ! d = fst ?s1 ! d ! d" by blast+
  have "\<forall>i \<in> set [Suc d..<N]. i < N \<and> i \<noteq> d" by simp
  from outer_loop_other [OF m2 d this, of p rw draws]
  show "is_matrix N N (fst (gnp_loop N p rw draws st))"
    and "fst (gnp_loop N p rw draws st) ! d ! d
         = (if draws c < p then (if rw then draws (c + 1) else 1) else fst st ! d ! d)"
    unfolding gnp_loop_split [OF d] B e2 e1 Be by blast+
qed

lemma binary_step_count: "snd (gnp_step p False draws i st j) = snd st + 1"
  by (cases st) (simp add: gnp_step_cases)

lemma binary_inner_count:
  "snd (foldl (gnp_step p False draws i) st js) = snd st + length js"
  by (induction js arbitrary: st) (simp_all add: binary_step_count)

lemma binary_outer_count:
  "snd (foldl (\<lambda>st i. foldl (gnp_step p False draws i) st [0..<N]) st is) = snd st + length is * N"
  by (induction "is" arbitrary: st) (simp_all add: binary_inner_count)

lemma binary_reach_pair_count:
  "snd (reach_pair N p False draws st i j) = snd st + i * N + j"
  by (simp add: reach_pair_def binary_inner_count binary_outer_count)

lemma tree_start:
  assumes "is_permutation N nodes" "d < N"
  shows "is_matrix N N (fst (randomSpanningTree N False nodes draws 0))"
    and "fst (randomSpanningTree N False nodes draws 0) ! d ! d = 0"
    and "snd (randomSpanningTree N False nodes draws 0) = 0"
proof -
  have nz: "False \<longrightarrow> (\<forall>k. draws k \<noteq> 0)" by simp
  note res = tree_result [OF assms(1) nz, of 0]
  show m: "is_matrix N N (fst (randomSpanningTree N False nodes draws 0))" by (rule res(1))
  then have "length (fst (randomSpanningTree N False nodes draws 0)) = N"
    by (simp add: is_matrix_def)
  then show "fst (randomSpanningTree N False nodes draws 0) ! d ! d = 0"
    using res(4) assms(2) by (simp add: zero_diagonal_def)
  have "snd (foldl (tree_step False nodes draws) st ks) = snd st" for st ks
    by (induction ks arbitrary: st) (simp_all add: tree_step_def split: prod.splits)
  then show "snd (randomSpanningTree N False nodes draws 0) = 0"
    by (simp add: randomSpanningTree_def)
qed

lemma gnp_from_sampled:
  "gnp N p rw nodes draws =
     (if rw then rowStochastic (gnp_sampled N p rw nodes draws)
      else Some (gnp_sampled N p rw nodes draws))"
  by (simp add: gnp_def gnp_sampled_def split: prod.splits)

text \<open>
  C3, as amended. The pair \<open>(d, d)\<close> is sampled like every other pair. With \<open>c\<close> the
  number of draws made before the loops reach it and \<open>A\<close> the matrix the loops leave,
  \<open>A[d, d]\<close> is the weight written there when the draw \<open>draws c\<close> is below \<open>p\<close>, and
  0 otherwise. In binary mode \<open>c = d * N + d\<close>, the weight is 1 and \<open>A\<close> is returned. In
  weighted mode \<open>rowStochastic A\<close> is returned: when no row of \<open>A\<close> sums to zero the
  entry returned is \<open>A[d, d]\<close> divided by the sum of row \<open>d\<close>, nonzero exactly when the
  draw is below \<open>p\<close> and the weight drawn is nonzero; when a row of \<open>A\<close> sums to zero
  the division by zero leaves no matrix of numbers.
\<close>

theorem gnp_diagonal:
  assumes perm: "is_permutation N nodes" and d: "d < N"
    and c: "c = snd (reach_pair N p rw draws (randomSpanningTree N False nodes draws 0) d d)"
    and A: "A = gnp_sampled N p rw nodes draws"
  shows "A ! d ! d = (if draws c < p then (if rw then draws (c + 1) else 1) else 0)
         \<and> (\<not> rw \<longrightarrow> c = d * N + d \<and> gnp N p rw nodes draws = Some A)
         \<and> (rw \<longrightarrow> gnp N p rw nodes draws = rowStochastic A)
         \<and> (rw \<and> (\<forall>row \<in> set A. sum_list row \<noteq> 0) \<longrightarrow>
              (\<exists>R. gnp N p rw nodes draws = Some R
                   \<and> R ! d ! d = A ! d ! d / sum_list (A ! d)
                   \<and> (R ! d ! d \<noteq> 0 \<longleftrightarrow> draws c < p \<and> draws (c + 1) \<noteq> 0)))
         \<and> (rw \<and> (\<exists>row \<in> set A. sum_list row = 0) \<longrightarrow> gnp N p rw nodes draws = None)
         \<and> (\<forall>R. gnp N p rw nodes draws = Some R \<longrightarrow>
              (R ! d ! d \<noteq> 0 \<longleftrightarrow> draws c < p \<and> (rw \<longrightarrow> draws (c + 1) \<noteq> 0)))"
proof -
  let ?t = "randomSpanningTree N False nodes draws 0"
  note t = tree_start [OF perm d, of draws]
  note loop = gnp_loop_diagonal [OF t(1) d, of p rw draws, folded c, folded gnp_sampled_def, folded A]
  have Add: "A ! d ! d = (if draws c < p then (if rw then draws (c + 1) else 1) else 0)"
    using loop(2) t(2) by simp
  have lenA: "length A = N" using loop(1) by (simp add: is_matrix_def)
  have row: "A ! d \<in> set A" "length (A ! d) = N"
    using is_matrix_nth [OF loop(1) d] by simp_all
  have gnp: "gnp N p rw nodes draws = (if rw then rowStochastic A else Some A)"
    unfolding A by (rule gnp_from_sampled)
  have binary: "c = d * N + d \<and> gnp N p rw nodes draws = Some A" if nrw: "\<not> rw"
    using nrw t(3) gnp by (simp add: c binary_reach_pair_count)
  have weighted: "gnp N p rw nodes draws = rowStochastic A" if rw
    using that gnp by simp
  have normal: "\<exists>R. gnp N p rw nodes draws = Some R
                   \<and> R ! d ! d = A ! d ! d / sum_list (A ! d)
                   \<and> (R ! d ! d \<noteq> 0 \<longleftrightarrow> draws c < p \<and> draws (c + 1) \<noteq> 0)"
    if rw: rw and sums: "\<forall>row \<in> set A. sum_list row \<noteq> 0"
  proof -
    let ?R = "map (\<lambda>row. map (\<lambda>x. x / sum_list row) row) A"
    have 1: "gnp N p rw nodes draws = Some ?R"
      using weighted [OF rw] rowStochastic_Some [OF sums] by simp
    have 2: "?R ! d ! d = A ! d ! d / sum_list (A ! d)"
      using d lenA row(2) by simp
    have "sum_list (A ! d) \<noteq> 0" using sums row(1) by blast
    then have 3: "?R ! d ! d \<noteq> 0 \<longleftrightarrow> draws c < p \<and> draws (c + 1) \<noteq> 0"
      unfolding 2 using Add rw by simp
    from 1 2 3 show ?thesis by blast
  qed
  have undefined_row: "gnp N p rw nodes draws = None"
    if rw and "\<exists>row \<in> set A. sum_list row = 0"
    using that weighted by (simp add: rowStochastic_def)
  have returned: "R ! d ! d \<noteq> 0 \<longleftrightarrow> draws c < p \<and> (rw \<longrightarrow> draws (c + 1) \<noteq> 0)"
    if res: "gnp N p rw nodes draws = Some R" for R
  proof (cases rw)
    case False
    then have "R = A" using res gnp by simp
    then show ?thesis using Add False by simp
  next
    case True
    have sums: "\<forall>row \<in> set A. sum_list row \<noteq> 0"
    proof (rule ccontr)
      assume "\<not> (\<forall>row \<in> set A. sum_list row \<noteq> 0)"
      then have "\<exists>row \<in> set A. sum_list row = 0" by blast
      with True have "gnp N p rw nodes draws = None" by (rule undefined_row)
      with res show False by simp
    qed
    from normal [OF True sums] res True show ?thesis by auto
  qed
  from Add binary weighted normal undefined_row returned show ?thesis
    by (intro conjI impI allI) blast+
qed

lemma sampled_two_nodes:
  "gnp_sampled 2 (1/2) False [0, 1] (\<lambda>k. if k = 0 then 1/4 else 3/4) = [[1, 1], [1, 0]]"
  by (simp add: gnp_sampled_def gnp_loop_def gnp_step_def randomSpanningTree_def tree_step_def
      zeros_def set_entry_def upt_2 upt_1_2 numeral_2_eq_2)

lemma sampled_one_node_accepted:
  "gnp_sampled 1 1 True [0] (\<lambda>k. 1/2) = [[1/2]]"
  by (simp add: gnp_sampled_def gnp_loop_def gnp_step_def randomSpanningTree_def tree_step_def
      zeros_def set_entry_def)

lemma sampled_one_node_rejected:
  "gnp_sampled 1 0 True [0] (\<lambda>k. 1/2) = [[0]]"
  by (simp add: gnp_sampled_def gnp_loop_def gnp_step_def randomSpanningTree_def tree_step_def
      zeros_def set_entry_def)

theorem gnp_diagonal_witness:
  "gnp 2 (1/2) False [0, 1] (\<lambda>k. if k = 0 then 1/4 else 3/4) = Some [[1, 1], [1, 0]]
   \<and> gnp_sampled 2 (1/2) False [0, 1] (\<lambda>k. if k = 0 then 1/4 else 3/4) ! 0 ! 0 = 1
   \<and> gnp_sampled 2 (1/2) False [0, 1] (\<lambda>k. if k = 0 then 1/4 else 3/4) ! 1 ! 1 = 0
   \<and> (\<exists>R. gnp 1 1 True [0] (\<lambda>k. 1/2) = Some R \<and> R ! 0 ! 0 \<noteq> 0)
   \<and> gnp 1 0 True [0] (\<lambda>k. 1/2) = None"
proof -
  define D :: rng where "D = (\<lambda>k. if k = 0 then 1/4 else 3/4)"
  define H :: rng where "H = (\<lambda>k. 1/2)"
  have p2: "is_permutation 2 [0, 1]" by (auto simp: is_permutation_def)
  have p1: "is_permutation 1 [0]" by (auto simp: is_permutation_def)
  have d0: "(0::nat) < 2" and d1: "(1::nat) < 2" and d01: "(0::nat) < 1" by simp_all
  define A where "A = gnp_sampled 2 (1/2) False [0, 1] D"
  define c0 where "c0 = snd (reach_pair 2 (1/2) False D (randomSpanningTree 2 False [0, 1] D 0) 0 0)"
  define c1 where "c1 = snd (reach_pair 2 (1/2) False D (randomSpanningTree 2 False [0, 1] D 0) 1 1)"
  note b0 = gnp_diagonal [OF p2 d0 c0_def A_def]
  note b1 = gnp_diagonal [OF p2 d1 c1_def A_def]
  have c0: "c0 = 0" and ret: "gnp 2 (1/2) False [0, 1] D = Some A" using b0 by simp_all
  have c1: "c1 = 3" using b1 by simp
  have e0: "A ! 0 ! 0 = 1" using b0 unfolding c0 by (simp add: D_def)
  have e1: "A ! 1 ! 1 = 0" using b1 unfolding c1 by (simp add: D_def)
  have A2: "A = [[1, 1], [1, 0]]" unfolding A_def D_def by (rule sampled_two_nodes)
  define B where "B = gnp_sampled 1 1 True [0] H"
  define cB where "cB = snd (reach_pair 1 1 True H (randomSpanningTree 1 False [0] H 0) 0 0)"
  have Bv: "B = [[1/2]]" unfolding B_def H_def by (rule sampled_one_node_accepted)
  have sums: "\<forall>row \<in> set B. sum_list row \<noteq> 0" unfolding Bv by simp
  from gnp_diagonal [OF p1 d01 cB_def B_def] sums
  obtain R where R: "gnp 1 1 True [0] H = Some R"
      "R ! 0 ! 0 \<noteq> 0 \<longleftrightarrow> H cB < 1 \<and> H (cB + 1) \<noteq> 0"
    by blast
  have "R ! 0 ! 0 \<noteq> 0" unfolding R(2) by (simp add: H_def)
  with R(1) have acc: "\<exists>R. gnp 1 1 True [0] H = Some R \<and> R ! 0 ! 0 \<noteq> 0" by blast
  define Z where "Z = gnp_sampled 1 0 True [0] H"
  define cZ where "cZ = snd (reach_pair 1 0 True H (randomSpanningTree 1 False [0] H 0) 0 0)"
  have Zv: "Z = [[0]]" unfolding Z_def H_def by (rule sampled_one_node_rejected)
  have zero: "\<exists>row \<in> set Z. sum_list row = 0" unfolding Zv by simp
  have rej: "gnp 1 0 True [0] H = None"
    using gnp_diagonal [OF p1 d01 cZ_def Z_def] zero by blast
  from ret e0 e1 acc rej show ?thesis
    unfolding A2 [symmetric] unfolding A_def D_def H_def by (intro conjI)
qed

text \<open>
  C3 as stated has the diagonal zero for every \<open>p\<close> and all draws. On one node with
  \<open>p = 1\<close> and the draw \<open>1/2\<close> the pair \<open>(0, 0)\<close> is accepted and the result is
  \<open>[[1]]\<close>, in binary and in weighted mode.
\<close>

theorem gnp_self_pair_counterexample:
  "is_permutation 1 [0]
   \<and> gnp 1 1 False [0] (\<lambda>k. 1/2) = Some [[1]]
   \<and> gnp 1 1 True [0] (\<lambda>k. 1/2) = Some [[1]]
   \<and> [[1 :: real]] ! 0 ! 0 \<noteq> 0"
  by (auto simp: is_permutation_def gnp_def gnp_loop_def gnp_step_def randomSpanningTree_def
      tree_step_def zeros_def set_entry_def rowStochastic_def)

end
